theory Spec2Isabelle
  imports Complex_Main "HOL-Library.Word"
begin

section \<open>Data model\<close>

text \<open>
  The orchestrator of the solver (\<open>Solver\<close>, file \<open>solver.cpp\<close>) is embedded function by
  function.  Vectors are lists, 64-bit counters are \<open>64 word\<close>, \<open>long\<close> is a \<open>64 word\<close>
  read with \<open>sint\<close>, \<open>double\<close> is idealised as \<open>real\<close>.  Every \<open>assert\<close>, \<open>exit\<close> and
  \<open>throw\<close> of the source is an error value.  Reading a vector beyond its size is undefined
  in the source; the theorems below state the ranges they need.
\<close>

datatype error = TooLongClauseError | AssertFail | Fatal

datatype lbool = l_True | l_False | l_Undef

text \<open>\<open>lbool::operator^(bool)\<close>: flips a defined value, leaves \<open>l_Undef\<close>.\<close>

fun lbool_xor :: "lbool \<Rightarrow> bool \<Rightarrow> lbool" where
  "lbool_xor l_Undef b = l_Undef"
| "lbool_xor l_True b = (if b then l_False else l_True)"
| "lbool_xor l_False b = (if b then l_True else l_False)"

text \<open>
  Modelled from the spec: class \<open>Lit\<close> is declared in a header that is not part of the
  sources at hand.  A literal is a pair (variable, sign) stored as \<open>2 * v\<close> for the positive
  and \<open>2 * v + 1\<close> for the negative literal; XOR with 1 negates; literals are ordered by
  this encoding.
\<close>

datatype Lit = Lit (var: nat) (sign: bool)

definition toInt :: "Lit \<Rightarrow> nat" where
  "toInt l = 2 * var l + (if sign l then 1 else 0)"

definition toLit :: "nat \<Rightarrow> Lit" where
  "toLit x = Lit (x div 2) (odd x)"

definition lit_xor :: "Lit \<Rightarrow> bool \<Rightarrow> Lit" where
  "lit_xor l b = Lit (var l) (sign l \<noteq> b)"

definition lit_neg :: "Lit \<Rightarrow> Lit" where
  "lit_neg l = lit_xor l True"

definition lit_less :: "Lit \<Rightarrow> Lit \<Rightarrow> bool" where
  "lit_less a b = (toInt a < toInt b)"

text \<open>
  Modelled from the spec: \<open>var_Undef\<close> and \<open>lit_Undef\<close> are header constants; the reserved
  variable index is the largest 28-bit value, above every variable the solver accepts.
\<close>

definition var_Undef :: nat where
  "var_Undef = 2 ^ 28 - 1"

definition lit_Undef :: Lit where
  "lit_Undef = Lit var_Undef False"

text \<open>\<open>std::sort\<close> on a vector of literals.\<close>

definition sort_lits :: "Lit list \<Rightarrow> Lit list" where
  "sort_lits ps = sort_key toInt ps"

datatype Removed = none | elimed | replaced | decomposed

record VarData =
  removed :: Removed
  is_bva :: bool

record ClauseStats =
  glue :: "32 word"
  which_red_array :: nat

record Clause =
  cl_lits :: "Lit list"
  cl_red :: bool
  cl_stats :: ClauseStats
  cl_strengthened :: bool

type_synonym ClOffset = nat

datatype Watched = Bin (w_lit2: Lit) (w_red: bool) | Long ClOffset Lit

fun isBin :: "Watched \<Rightarrow> bool" where
  "isBin (Bin l r) = True"
| "isBin (Long off b) = False"

record Xor =
  xor_vars :: "nat list"
  xor_rhs :: bool

datatype DratItem = DratLits "Lit list" | DratFin | DratDel

record SolverConf =
  perform_occur_based_simp :: bool
  glue_put_lev0_if_below_or_eq :: "32 word"
  glue_put_lev1_if_below_or_eq :: "32 word"
  maxConfl :: "64 word"
  maxTime :: real
  num_conflicts_of_search :: "64 word"
  num_conflicts_of_search_inc :: real
  num_conflicts_of_search_inc_max :: real
  never_stop_search :: bool
  burst_search_len :: "64 word"
  do_simplify_problem :: bool
  simplify_at_startup :: bool
  simplify_at_every_startup :: bool
  full_simplify_at_startup :: bool
  simplify_schedule_startup :: string
  simplify_schedule_nonstartup :: string
  preprocess :: int
  doCompHandler :: bool
  doFindAndReplaceEqLits :: bool
  doCache :: bool
  doStamp :: bool
  doStrSubImplicit :: bool
  doIntreeProbe :: bool
  doProbe :: bool
  do_distill_clauses :: bool
  doRenumberVars :: bool
  doSaveMem :: bool
  compVarLimit :: nat
  handlerFromSimpNum :: nat
  maxCacheSizeMB :: nat
  independent_vars :: "nat list option"
  global_timeout_multiplier :: real
  orig_global_timeout_multiplier :: real
  global_timeout_multiplier_multiplier :: real
  global_multiplier_multiplier_max :: real
  reconfigure_at :: nat
  reconfigure_val :: int
  shortTermHistorySize :: int

text \<open>
  The state of the solver.  \<open>nVars\<close>, \<open>nVarsOuter\<close> and \<open>num_bva_vars\<close> are the counts the
  base classes keep (\<open>nVarsOutside = nVarsOuter - num_bva_vars\<close>); \<open>cl_alloc\<close> is the clause
  arena, a clause's offset being its index; \<open>hidden\<close> is the private state of the external
  collaborators (searcher, occurrence simplifier, equivalence replacer, component handler,
  implication cache, data sync, SQL sink), which only they read and write.
\<close>

record 'x Solver =
  ok :: bool
  conf :: SolverConf
  nVars :: nat
  nVarsOuter :: nat
  num_bva_vars :: nat
  assigns :: "lbool list"
  varData :: "VarData list"
  trail :: "Lit list"
  trail_lim :: "nat list"
  qhead :: nat
  watches :: "Watched list list"
  cl_alloc :: "Clause list"
  longIrredCls :: "ClOffset list"
  longRedCls :: "ClOffset list list"
  xorclauses :: "Xor list"
  irredLits :: "64 word"
  redLits :: "64 word"
  irredBins :: "64 word"
  redBins :: "64 word"
  numNewBinsSinceSCC :: "64 word"
  undef_must_set_vars :: "bool list"
  interToOuterMain :: "nat list"
  outerToInterMain :: "nat list"
  outer_to_with_bva_map :: "nat list"
  assumptionsSet :: "bool list"
  sumConflicts :: "64 word"
  zeroLevAssignsByCNF :: "64 word"
  num_solve_calls :: "64 word"
  numSimplify :: nat
  drat_enabled :: bool
  drat_log :: "DratItem list"
  must_interrupt_inter :: bool
  has_compHandler :: bool
  has_occsimplifier :: bool
  has_sqlStats :: bool
  model :: "lbool list"
  conflict :: "Lit list"
  assumptions :: "(Lit \<times> Lit) list"
  outside_assumptions :: "Lit list"
  hidden :: 'x

text \<open>
  The external collaborators.  Their code is outside the orchestrator; each call site of the
  source names the operation it invokes, and the interpretation of the operations is a
  parameter of every function below, so that each theorem holds for all collaborators.
\<close>

datatype ExtCall =
    Searcher_new_var bool "nat option"
  | VarReplacer_new_var "nat option"
  | OccSimplifier_new_var "nat option"
  | CompHandler_new_var "nat option"
  | DataSync_new_var bool
  | Stamp_freeMem
  | ImplCache_free
  | DataSync_signalNewBinClause "Lit list"
  | CompHandler_readdRemovedClauses
  | Fill_assumptions_set_from
  | Unfill_assumptions_set_from
  | ClauseCleaner_remove_and_clean_all
  | CNF_updateVars "nat list" "nat list"
  | PropEngine_updateVars "nat list" "nat list"
  | Searcher_updateVars "nat list" "nat list"
  | Stamp_updateVars "nat list" "nat list"
  | VarReplacer_updateVars "nat list" "nat list"
  | ImplCache_updateVars "nat list" "nat list" nat
  | DataSync_updateVars "nat list" "nat list"
  | Searcher_save_on_var_memory
  | Collaborators_save_on_var_memory
  | SqlStats_mem_used
  | SqlStats_finishup lbool
  | Clear_gauss
  | Check_recursive_minimization_effectiveness lbool
  | Check_minimization_effectiveness lbool
  | Fold_search_stats
  | Check_too_many_low_glues
  | CompFinder_find_components
  | CompHandler_handle
  | VarReplacer_replace_if_enough_is_found nat
  | ImplCache_clean
  | ImplCache_tryBoth
  | SubsumeImplicit_subsume_implicit
  | InTree_intree_probe
  | Prober_probe
  | Distill_long_with_implicit
  | Distill_all_with_all
  | Str_impl_w_impl_stamp
  | OccSimplifier_simplify bool string
  | MatrixFinder_findMatrixes
  | Find_all_attach
  | Clear_order_heap
  | Consolidate_watches
  | RebuildOrderHeap
  | Set_restart_parameters
  | DataSync_rebuild_bva_map
  | CancelUntil nat

text \<open>
  Operations whose own checks may stop the program (an \<open>assert\<close> or an \<open>exit\<close> inside
  them): they return an error or the new state.
\<close>

datatype ExtTry =
    Test_all_clause_attached
  | Test_reflectivity_of_renumbering
  | Check_stats_after_simplify
  | Reconfigure
  | Save_state_and_dump lbool
  | Handle_found_solution lbool

datatype ExtBoolCall =
    Propagate
  | OccSimplifier_uneliminate nat

record 'x Ext =
  ext_call :: "ExtCall \<Rightarrow> 'x Solver \<Rightarrow> 'x Solver"
  ext_try :: "ExtTry \<Rightarrow> 'x Solver \<Rightarrow> error + 'x Solver"
  ext_bool :: "ExtBoolCall \<Rightarrow> 'x Solver \<Rightarrow> bool \<times> 'x Solver"
  Searcher_solve :: "64 word \<Rightarrow> nat \<Rightarrow> 'x Solver \<Rightarrow> lbool \<times> 'x Solver"
  load_state_and_solution :: "'x Solver \<Rightarrow> lbool \<times> 'x Solver"
  implCache_clean_set :: "'x Solver \<Rightarrow> bool \<times> bool \<times> 'x Solver"
  cpuTime :: "'x Solver \<Rightarrow> real"
  getAnythingHasBeenBlocked :: "'x Solver \<Rightarrow> bool"
  get_lit_replaced_with_outer :: "'x Solver \<Rightarrow> Lit \<Rightarrow> Lit"
  get_vars_replacing_others :: "'x Solver \<Rightarrow> nat list"
  get_num_free_vars :: "'x Solver \<Rightarrow> nat"
  implCache_mem_used :: "'x Solver \<Rightarrow> nat"
  smudged_list_empty :: "'x Solver \<Rightarrow> bool"
  default_ClauseStats :: ClauseStats
  USE_GAUSS :: bool

section \<open>Small accessors of the base classes\<close>

definition value_lit :: "'x Solver \<Rightarrow> Lit \<Rightarrow> lbool" where
  "value_lit s l = lbool_xor (assigns s ! var l) (sign l)"

definition decisionLevel :: "'x Solver \<Rightarrow> nat" where
  "decisionLevel s = length (trail_lim s)"

definition nVarsOutside :: "'x Solver \<Rightarrow> nat" where
  "nVarsOutside s = nVarsOuter s - num_bva_vars s"

definition map_inter_to_outer :: "'x Solver \<Rightarrow> nat \<Rightarrow> nat" where
  "map_inter_to_outer s v = interToOuterMain s ! v"

definition map_outer_to_inter :: "'x Solver \<Rightarrow> nat \<Rightarrow> nat" where
  "map_outer_to_inter s v = outerToInterMain s ! v"

definition map_outer_to_inter_lit :: "'x Solver \<Rightarrow> Lit \<Rightarrow> Lit" where
  "map_outer_to_inter_lit s l = Lit (map_outer_to_inter s (var l)) (sign l)"

definition drat_write :: "DratItem list \<Rightarrow> 'x Solver \<Rightarrow> 'x Solver" where
  "drat_write items s = (if drat_enabled s then s\<lparr>drat_log := drat_log s @ items\<rparr> else s)"

text \<open>
  Modelled from the spec: \<open>PropEngine::enqueue\<close> is not in the sources at hand.  It appends
  the literal to the trail and sets the value of its variable.
\<close>

definition enqueue :: "Lit \<Rightarrow> 'x Solver \<Rightarrow> 'x Solver" where
  "enqueue l s = s\<lparr>trail := trail s @ [l],
                   assigns := (assigns s)[var l := (if sign l then l_False else l_True)]\<rparr>"

text \<open>
  Modelled from the spec: \<open>PropEngine::attach_bin_clause\<close> is not in the sources at hand.
  Attaching a binary clause appends one binary entry to the watch list of each of its two
  literals, the redundancy flag duplicated in both.
\<close>

definition PropEngine_attach_bin_clause :: "Lit \<Rightarrow> Lit \<Rightarrow> bool \<Rightarrow> 'x Solver \<Rightarrow> 'x Solver" where
  "PropEngine_attach_bin_clause lit1 lit2 red s =
     (let w1 = (watches s)[toInt lit1 := watches s ! toInt lit1 @ [Bin lit2 red]];
          w2 = w1[toInt lit2 := w1 ! toInt lit2 @ [Bin lit1 red]]
      in s\<lparr>watches := w2\<rparr>)"

text \<open>
  Modelled from the spec: \<open>PropEngine::attachClause\<close> is not in the sources at hand.
  Attaching a long clause appends a long entry (clause handle and blocker literal) to the
  watch lists of its two watched literals, the first two of the clause.
\<close>

definition PropEngine_attachClause :: "ClOffset \<Rightarrow> 'x Solver \<Rightarrow> 'x Solver" where
  "PropEngine_attachClause off s =
     (let c = cl_lits (cl_alloc s ! off);
          w1 = (watches s)[toInt (c ! 0) := watches s ! toInt (c ! 0) @ [Long off (c ! 2)]];
          w2 = w1[toInt (c ! 1) := w1 ! toInt (c ! 1) @ [Long off (c ! 2)]]
      in s\<lparr>watches := w2\<rparr>)"

section \<open>Variable creation\<close>

definition check_switchoff_limits_newvar :: "'x Ext \<Rightarrow> nat \<Rightarrow> 'x Solver \<Rightarrow> 'x Solver" where
  "check_switchoff_limits_newvar ext n s =
     (let s1 = (if doStamp (conf s) \<and> nVars s + n > 15 * 1000 * 1000
                then ext_call ext Stamp_freeMem (s\<lparr>conf := (conf s)\<lparr>doStamp := False\<rparr>\<rparr>)
                else s)
      in if doCache (conf s1) \<and> nVars s1 + n > 5 * 1000 * 1000
         then ext_call ext ImplCache_free (s1\<lparr>conf := (conf s1)\<lparr>doCache := False\<rparr>\<rparr>)
         else s1)"

text \<open>
  \<open>Solver::new_var(bva, orig_outer)\<close>; \<open>orig_outer = None\<close> stands for the default argument
  \<open>numeric_limits<uint32_t>::max()\<close>, a variable that is new in the outer numbering too.
\<close>

definition new_var :: "'x Ext \<Rightarrow> bool \<Rightarrow> nat option \<Rightarrow> 'x Solver \<Rightarrow> 'x Solver" where
  "new_var ext bva orig_outer s =
     (let s1 = check_switchoff_limits_newvar ext 1 s;
          s2 = ext_call ext (Searcher_new_var bva orig_outer) s1;
          s3 = ext_call ext (VarReplacer_new_var orig_outer) s2;
          s4 = (if perform_occur_based_simp (conf s3)
                then ext_call ext (OccSimplifier_new_var orig_outer) s3 else s3);
          s5 = (if has_compHandler s4
                then ext_call ext (CompHandler_new_var orig_outer) s4 else s4);
          s6 = (if orig_outer = None then ext_call ext (DataSync_new_var bva) s5 else s5)
      in if bva then s6\<lparr>assumptionsSet := assumptionsSet s6 @ [False]\<rparr> else s6)"

section \<open>Clause ingress\<close>

subsection \<open>Cleaning\<close>

text \<open>The marking done by the tautology branch of \<open>sort_and_clean_clause\<close>.\<close>

definition mark_undef_must_set :: "nat \<Rightarrow> 'x Solver \<Rightarrow> 'x Solver" where
  "mark_undef_must_set v s =
     (let ov = map_inter_to_outer s v;
          xs = undef_must_set_vars s;
          xs' = (if length xs < ov + 1 then xs @ replicate (ov + 1 - length xs) False else xs)
      in s\<lparr>undef_must_set_vars := xs'[ov := True]\<rparr>)"

text \<open>
  The scan of \<open>sort_and_clean_clause\<close> over the sorted literals: \<open>p\<close> is the last retained
  literal, \<open>acc\<close> the retained prefix \<open>ps[0..j)\<close>.  The result \<open>None\<close> is the return value
  \<open>false\<close> (the clause is dropped), \<open>Some\<close> the cleaned clause.
\<close>

fun clean_scan :: "bool \<Rightarrow> Lit \<Rightarrow> Lit list \<Rightarrow> Lit list \<Rightarrow> 'x Solver
    \<Rightarrow> error + (Lit list option \<times> 'x Solver)" where
  "clean_scan red p acc [] s = Inr (Some acc, s)"
| "clean_scan red p acc (l # rest) s =
     (if value_lit s l = l_True then Inr (None, s)
      else if l = lit_neg p then
        Inr (None, if \<not> red then mark_undef_must_set (var p) s else s)
      else if value_lit s l \<noteq> l_False \<and> l \<noteq> p then
        (if removed (varData s ! var l) \<noteq> none then Inl AssertFail
         else clean_scan red l (acc @ [l]) rest s)
      else clean_scan red p acc rest s)"

definition sort_and_clean_clause :: "Lit list \<Rightarrow> bool \<Rightarrow> 'x Solver
    \<Rightarrow> error + (Lit list option \<times> 'x Solver)" where
  "sort_and_clean_clause ps red s = clean_scan red lit_Undef [] (sort_lits ps) s"

subsection \<open>Attaching\<close>

definition attach_bin_clause :: "Lit \<Rightarrow> Lit \<Rightarrow> bool \<Rightarrow> 'x Solver \<Rightarrow> 'x Solver" where
  "attach_bin_clause lit1 lit2 red s =
     (let s1 = (if red then s\<lparr>redBins := redBins s + 1\<rparr> else s\<lparr>irredBins := irredBins s + 1\<rparr>);
          s2 = s1\<lparr>numNewBinsSinceSCC := numNewBinsSinceSCC s1 + 1\<rparr>
      in PropEngine_attach_bin_clause lit1 lit2 red s2)"

definition attachClause :: "ClOffset \<Rightarrow> 'x Solver \<Rightarrow> 'x Solver" where
  "attachClause off s =
     (let c = cl_alloc s ! off;
          n = of_nat (length (cl_lits c));
          s1 = (if cl_red c then s\<lparr>redLits := redLits s + n\<rparr> else s\<lparr>irredLits := irredLits s + n\<rparr>)
      in PropEngine_attachClause off s1)"

text \<open>
  The block of \<open>add_clause_int\<close> that writes the clause to the proof log: the literal
  \<open>drat_first\<close>, when given and present, is swapped to the front for the output only.
\<close>

fun find_drat_first :: "Lit \<Rightarrow> Lit list \<Rightarrow> nat \<Rightarrow> nat" where
  "find_drat_first d [] i = i"
| "find_drat_first d (l # ls) i = (if l = d then i else find_drat_first d ls (i + 1))"

definition swap_at :: "'a list \<Rightarrow> nat \<Rightarrow> nat \<Rightarrow> 'a list" where
  "swap_at xs i j = xs[i := xs ! j, j := xs ! i]"

definition add_clause_int_drat :: "'x Ext \<Rightarrow> Lit list \<Rightarrow> Lit \<Rightarrow> 'x Solver \<Rightarrow> 'x Solver" where
  "add_clause_int_drat ext ps drat_first s =
     (let i = (if drat_first \<noteq> lit_Undef then find_drat_first drat_first ps 0 else 0);
          s1 = drat_write [DratLits (swap_at ps 0 i), DratFin] s
      in if length ps = 2 then ext_call ext (DataSync_signalNewBinClause ps) s1 else s1)"

text \<open>
  \<open>add_clause_int\<close>.  The result carries the offset of the allocated long clause (\<open>None\<close>
  for the \<open>NULL\<close> pointer), the literals written through \<open>finalLits\<close> (\<open>None\<close> when the
  function returns before the assignment, or when the caller passes no vector), and the
  new state.
\<close>

definition add_clause_int :: "'x Ext \<Rightarrow> Lit list \<Rightarrow> bool \<Rightarrow> ClauseStats \<Rightarrow> bool \<Rightarrow> bool \<Rightarrow> bool
    \<Rightarrow> Lit \<Rightarrow> 'x Solver \<Rightarrow> error + (ClOffset option \<times> Lit list option \<times> 'x Solver)" where
  "add_clause_int ext lits red stats attach_long want_final addDrat drat_first s =
     (if \<not> ok s then Inl AssertFail
      else if decisionLevel s \<noteq> 0 then Inl AssertFail
      else if attach_long \<and> qhead s \<noteq> length (trail s) then Inl AssertFail
      else case sort_and_clean_clause lits red s of
        Inl e \<Rightarrow> Inl e
      | Inr (None, s1) \<Rightarrow> Inr (None, None, s1)
      | Inr (Some ps, s1) \<Rightarrow>
          (let finalLits = (if want_final then Some ps else None);
               s2 = (if addDrat then add_clause_int_drat ext ps drat_first s1 else s1)
           in if length ps = 0 then Inr (None, finalLits, s2\<lparr>ok := False\<rparr>)
              else if length ps = 1 then
                (let s3 = enqueue (ps ! 0) s2
                 in if attach_long then
                      (case ext_bool ext Propagate s3 of
                         (confl_isNULL, s4) \<Rightarrow> Inr (None, finalLits, s4\<lparr>ok := confl_isNULL\<rparr>))
                    else Inr (None, finalLits, s3))
              else if length ps = 2 then
                Inr (None, finalLits, attach_bin_clause (ps ! 0) (ps ! 1) red s2)
              else
                (let off = length (cl_alloc s2);
                     c = \<lparr>cl_lits = ps, cl_red = red, cl_stats = stats, cl_strengthened = False\<rparr>;
                     s3 = s2\<lparr>cl_alloc := cl_alloc s2 @ [c]\<rparr>;
                     s4 = (if attach_long then attachClause off s3
                           else if red then s3\<lparr>redLits := redLits s3 + of_nat (length ps)\<rparr>
                           else s3\<lparr>irredLits := irredLits s3 + of_nat (length ps)\<rparr>)
                 in Inr (Some off, finalLits, s4))))"

subsection \<open>Admission from the outer numbering\<close>

text \<open>
  The first loop of \<open>addClauseHelper\<close>: range check, equivalence substitution, and a fresh
  inter slot for an outer variable that has none.
\<close>

fun addClauseHelper_loop :: "'x Ext \<Rightarrow> Lit list \<Rightarrow> Lit list \<Rightarrow> 'x Solver
    \<Rightarrow> error + (Lit list \<times> 'x Solver)" where
  "addClauseHelper_loop ext acc [] s = Inr (acc, s)"
| "addClauseHelper_loop ext acc (lit # rest) s =
     (if var lit \<ge> nVarsOuter s then Inl Fatal
      else
        (let updated_lit = get_lit_replaced_with_outer ext s lit;
             s1 = (if var (map_outer_to_inter_lit s updated_lit) \<ge> nVars s
                   then new_var ext False (Some (var updated_lit)) s else s)
         in addClauseHelper_loop ext (acc @ [updated_lit]) rest s1))"

fun uneliminate_loop :: "'x Ext \<Rightarrow> Lit list \<Rightarrow> 'x Solver \<Rightarrow> bool \<times> 'x Solver" where
  "uneliminate_loop ext [] s = (True, s)"
| "uneliminate_loop ext (lit # rest) s =
     (if perform_occur_based_simp (conf s) \<and> removed (varData s ! var lit) = elimed then
        (case ext_bool ext (OccSimplifier_uneliminate (var lit)) s of
           (r, s1) \<Rightarrow> if \<not> r then (False, s1) else uneliminate_loop ext rest s1)
      else uneliminate_loop ext rest s)"

definition addClauseHelper :: "'x Ext \<Rightarrow> Lit list \<Rightarrow> 'x Solver
    \<Rightarrow> error + (bool \<times> Lit list \<times> 'x Solver)" where
  "addClauseHelper ext ps s =
     (if \<not> ok s then Inr (False, ps, s)
      else if decisionLevel s \<noteq> 0 then Inl AssertFail
      else if qhead s \<noteq> length (trail s) then Inl AssertFail
      else if length ps > 2 ^ 28 then Inl TooLongClauseError
      else case addClauseHelper_loop ext [] ps s of
        Inl e \<Rightarrow> Inl e
      | Inr (ps1, s1) \<Rightarrow>
          (let ps2 = map (map_outer_to_inter_lit s1) ps1;
               s2 = (if has_compHandler s1
                       \<and> (\<exists>lit \<in> set ps2. removed (varData s1 ! var lit) = decomposed)
                     then ext_call ext CompHandler_readdRemovedClauses s1 else s1)
           in case uneliminate_loop ext ps2 s2 of
                (r, s3) \<Rightarrow> Inr (r, ps2, s3)))"

text \<open>The tier of a redundant long clause, as the tail of \<open>addClause\<close> computes it.\<close>

definition addClause_tier :: "SolverConf \<Rightarrow> ClauseStats \<Rightarrow> nat" where
  "addClause_tier cf st =
     (if glue st \<le> glue_put_lev0_if_below_or_eq cf then 0
      else if glue st \<le> glue_put_lev1_if_below_or_eq cf \<and> glue_put_lev1_if_below_or_eq cf \<noteq> 0
      then 1
      else 2)"

definition addClause_store :: "ClOffset option \<Rightarrow> bool \<Rightarrow> 'x Solver \<Rightarrow> 'x Solver" where
  "addClause_store cl red s =
     (case cl of
        None \<Rightarrow> s
      | Some offset \<Rightarrow>
          if \<not> red then s\<lparr>longIrredCls := longIrredCls s @ [offset]\<rparr>
          else
            (let c = cl_alloc s ! offset;
                 t = addClause_tier (conf s) (cl_stats c);
                 c' = c\<lparr>cl_stats := (cl_stats c)\<lparr>which_red_array := t\<rparr>\<rparr>
             in s\<lparr>cl_alloc := (cl_alloc s)[offset := c'],
                  longRedCls := (longRedCls s)[t := longRedCls s ! t @ [offset]]\<rparr>))"

definition addClause_drat :: "Lit list \<Rightarrow> Lit list \<Rightarrow> 'x Solver \<Rightarrow> 'x Solver" where
  "addClause_drat ps finalCl_tmp s =
     (if drat_enabled s \<and> ps \<noteq> finalCl_tmp then
        (let s1 = (if finalCl_tmp \<noteq> [] then drat_write [DratLits finalCl_tmp, DratFin] s else s);
             s2 = (if \<not> ok s1 then drat_write [DratFin] s1 else s1)
         in drat_write [DratDel, DratLits ps, DratFin] s2)
      else s)"

definition addClause :: "'x Ext \<Rightarrow> Lit list \<Rightarrow> bool \<Rightarrow> 'x Solver \<Rightarrow> error + (bool \<times> 'x Solver)" where
  "addClause ext lits red s =
     (if perform_occur_based_simp (conf s) \<and> getAnythingHasBeenBlocked ext s then Inl Fatal
      else
        (let origTrailSize = length (trail s)
         in case addClauseHelper ext lits s of
              Inl e \<Rightarrow> Inl e
            | Inr (False, ps, s1) \<Rightarrow> Inr (False, s1)
            | Inr (True, ps, s1) \<Rightarrow>
                (let ps' = sort_lits ps
                 in case add_clause_int ext ps' red (default_ClauseStats ext) True True False
                           lit_Undef s1 of
                      Inl e \<Rightarrow> Inl e
                    | Inr (cl, finalLits, s2) \<Rightarrow>
                        (let finalCl_tmp = (case finalLits of None \<Rightarrow> [] | Some f \<Rightarrow> f);
                             s3 = addClause_drat ps' finalCl_tmp s2;
                             s4 = addClause_store cl red s3;
                             s5 = s4\<lparr>zeroLevAssignsByCNF := zeroLevAssignsByCNF s4
                                     + (of_nat (length (trail s4)) - of_nat origTrailSize)\<rparr>
                         in Inr (ok s5, s5)))))"

subsection \<open>The outer API\<close>

text \<open>
  \<open>check_too_large_variable_number\<close>: \<open>True\<close> when every variable is declared and below
  \<open>var_Undef\<close>; the source exits otherwise.
\<close>

definition check_too_large_variable_number :: "Lit list \<Rightarrow> 'x Solver \<Rightarrow> bool" where
  "check_too_large_variable_number lits s =
     (\<forall>lit \<in> set lits. \<not> (var lit \<ge> nVarsOutside s) \<and> \<not> (var lit \<ge> var_Undef))"

text \<open>
  Modelled from the spec: \<open>back_number_from_outside_to_outer\<close> is not in the sources at
  hand.  The outside numbering is the outer numbering with the BVA variables skipped, the
  map being the vector \<open>outer_to_with_bva_map\<close>.
\<close>

definition back_number_from_outside_to_outer :: "Lit list \<Rightarrow> 'x Solver \<Rightarrow> Lit list" where
  "back_number_from_outside_to_outer lits s =
     map (\<lambda>l. Lit (outer_to_with_bva_map s ! var l) (sign l)) lits"

definition add_clause_outer :: "'x Ext \<Rightarrow> Lit list \<Rightarrow> bool \<Rightarrow> 'x Solver
    \<Rightarrow> error + (bool \<times> 'x Solver)" where
  "add_clause_outer ext lits red s =
     (if \<not> ok s then Inr (False, s)
      else if \<not> check_too_large_variable_number lits s then Inl Fatal
      else addClause ext (back_number_from_outside_to_outer lits s) red s)"

subsection \<open>XOR ingestion\<close>

text \<open>\<open>num_bits_set\<close>: the number of set bits among the lowest \<open>max_size\<close> bits of \<open>x\<close>.\<close>

definition num_bits_set :: "nat \<Rightarrow> nat \<Rightarrow> nat" where
  "num_bits_set x max_size = length (filter (\<lambda>i. odd (x div 2 ^ i)) [0..<max_size])"

text \<open>The clause that \<open>add_xor_clause_inter_cleaned_cut\<close> builds for the sign pattern \<open>i\<close>.\<close>

definition cut_new_lits :: "Lit list \<Rightarrow> nat \<Rightarrow> Lit list" where
  "cut_new_lits lits i = map (\<lambda>k. lit_xor (lits ! k) (odd (i div 2 ^ k))) [0..<length lits]"

text \<open>
  The loop of \<open>add_xor_clause_inter_cleaned_cut\<close> over the sign patterns still to be
  visited; it stops as soon as \<open>ok\<close> is false.
\<close>

fun cut_loop :: "'x Ext \<Rightarrow> Lit list \<Rightarrow> bool \<Rightarrow> bool \<Rightarrow> nat list \<Rightarrow> 'x Solver
    \<Rightarrow> error + 'x Solver" where
  "cut_loop ext lits attach addDrat [] s = Inr s"
| "cut_loop ext lits attach addDrat (i # rest) s =
     (if num_bits_set i (length lits) mod 2 = 0 then cut_loop ext lits attach addDrat rest s
      else
        (case add_clause_int ext (cut_new_lits lits i) False (default_ClauseStats ext) attach
                False addDrat lit_Undef s of
           Inl e \<Rightarrow> Inl e
         | Inr (cl, fl, s1) \<Rightarrow>
             (let s2 = (case cl of
                          None \<Rightarrow> s1
                        | Some off \<Rightarrow> s1\<lparr>longIrredCls := longIrredCls s1 @ [off]\<rparr>)
              in if \<not> ok s2 then Inr s2
                 else cut_loop ext lits attach addDrat rest s2)))"

definition add_xor_clause_inter_cleaned_cut :: "'x Ext \<Rightarrow> Lit list \<Rightarrow> bool \<Rightarrow> bool
    \<Rightarrow> 'x Solver \<Rightarrow> error + 'x Solver" where
  "add_xor_clause_inter_cleaned_cut ext lits attach addDrat s =
     cut_loop ext lits attach addDrat [0..<2 ^ length lits] s"

text \<open>
  One round of the \<open>while\<close> loop of \<open>add_every_combination_xor\<close>, up to the call that adds
  the cut: \<open>rest\<close> is \<open>lits[at..]\<close>.  The result is the small XOR, the literals left, the
  connecting literal and the state (a fresh variable is created when literals are left).
\<close>

definition xor_cut_step :: "'x Ext \<Rightarrow> Lit list \<Rightarrow> Lit \<Rightarrow> 'x Solver
    \<Rightarrow> Lit list \<times> Lit list \<times> Lit \<times> 'x Solver" where
  "xor_cut_step ext rest lastlit_added s =
     (let xorlits1 = take 2 rest;
          rest1 = drop 2 rest;
          (xorlits2, rest2) =
             (if lastlit_added \<noteq> lit_Undef then (xorlits1 @ [lastlit_added], rest1)
              else if rest1 \<noteq> [] then (xorlits1 @ [hd rest1], tl rest1)
              else (xorlits1, rest1));
          (xorlits3, rest3) =
             (if length rest2 = 1 then (xorlits2 @ [hd rest2], tl rest2)
              else (xorlits2, rest2))
      in if rest3 \<noteq> [] then
           (let s1 = new_var ext True None s;
                toadd = Lit (nVars s1 - 1) False
            in (xorlits3 @ [toadd], rest3, toadd, s1))
         else (xorlits3, rest3, lastlit_added, s))"

lemma xor_cut_step_length:
  "rest \<noteq> [] \<Longrightarrow> xor_cut_step ext rest lastlit_added s = (xl, rest', ll, s')
     \<Longrightarrow> length rest' < length rest"
  by (cases rest) (auto simp: xor_cut_step_def Let_def split: if_splits prod.splits)

function add_every_combination_xor_loop :: "'x Ext \<Rightarrow> bool \<Rightarrow> bool \<Rightarrow> Lit list \<Rightarrow> Lit
    \<Rightarrow> 'x Solver \<Rightarrow> error + 'x Solver" where
  "add_every_combination_xor_loop ext attach addDrat rest lastlit_added s =
     (if rest = [] then Inr s
      else
        (case xor_cut_step ext rest lastlit_added s of
           (xorlits, rest', lastlit_added', s1) \<Rightarrow>
             (case add_xor_clause_inter_cleaned_cut ext xorlits attach addDrat s1 of
                Inl e \<Rightarrow> Inl e
              | Inr s2 \<Rightarrow>
                  if \<not> ok s2 then Inr s2
                  else add_every_combination_xor_loop ext attach addDrat rest' lastlit_added' s2)))"
  by pat_completeness auto
termination
  by (relation "measure (\<lambda>(ext, attach, addDrat, rest, lastlit_added, s). length rest)")
     (auto dest: xor_cut_step_length [OF _ sym])

definition add_every_combination_xor :: "'x Ext \<Rightarrow> Lit list \<Rightarrow> bool \<Rightarrow> bool \<Rightarrow> 'x Solver
    \<Rightarrow> error + 'x Solver" where
  "add_every_combination_xor ext lits attach addDrat s =
     add_every_combination_xor_loop ext attach addDrat lits lit_Undef s"

text \<open>
  The cleaning loop of \<open>add_xor_clause_inter\<close> over the sorted positive literals: a variable
  seen twice in a row cancels (the retained copy is dropped again), an assigned variable is
  folded into the right-hand side.
\<close>

fun xor_clean_scan :: "Lit \<Rightarrow> Lit list \<Rightarrow> bool \<Rightarrow> Lit list \<Rightarrow> 'x Solver
    \<Rightarrow> error + (Lit list \<times> bool)" where
  "xor_clean_scan p acc rhs [] s = Inr (acc, rhs)"
| "xor_clean_scan p acc rhs (l # rest) s =
     (if sign l \<noteq> False then Inl AssertFail
      else if var l = var p then
        xor_clean_scan lit_Undef (butlast acc)
          (if value_lit s l \<noteq> l_Undef then (rhs \<noteq> (value_lit s l = l_True)) else rhs) rest s
      else if value_lit s l = l_Undef then
        (if removed (varData s ! var l) = elimed then Inl AssertFail
         else xor_clean_scan l (acc @ [l]) rhs rest s)
      else xor_clean_scan p acc (rhs \<noteq> (value_lit s l = l_True)) rest s)"

definition add_xor_clause_inter :: "'x Ext \<Rightarrow> Lit list \<Rightarrow> bool \<Rightarrow> bool \<Rightarrow> bool \<Rightarrow> 'x Solver
    \<Rightarrow> error + (bool \<times> 'x Solver)" where
  "add_xor_clause_inter ext lits rhs attach addDrat s =
     (if \<not> ok s then Inl AssertFail
      else if attach \<and> qhead s \<noteq> length (trail s) then Inl AssertFail
      else if decisionLevel s \<noteq> 0 then Inl AssertFail
      else
        (let rhs1 = foldl (\<lambda>r lit. if sign lit then (r \<noteq> True) else r) rhs lits;
             ps1 = map (\<lambda>lit. if sign lit then lit_xor lit True else lit) lits
         in case xor_clean_scan lit_Undef [] rhs1 (sort_lits ps1) s of
              Inl e \<Rightarrow> Inl e
            | Inr (ps, rhs2) \<Rightarrow>
                if length ps \<ge> 2 ^ 28 then Inl TooLongClauseError
                else if ps \<noteq> [] then
                  (let s1 = (if length ps > 2
                             then s\<lparr>xorclauses := xorclauses s
                                      @ [\<lparr>xor_vars = map var ps, xor_rhs = rhs2\<rparr>]\<rparr>
                             else s);
                       ps' = ps[0 := lit_xor (ps ! 0) rhs2]
                   in case add_every_combination_xor ext ps' attach addDrat s1 of
                        Inl e \<Rightarrow> Inl e
                      | Inr s2 \<Rightarrow> Inr (ok s2, s2))
                else if rhs2 then
                  (let s1 = (drat_write [DratFin] s)\<lparr>ok := False\<rparr> in Inr (ok s1, s1))
                else Inr (ok s, s)))"

definition add_xor_clause_outer :: "'x Ext \<Rightarrow> nat list \<Rightarrow> bool \<Rightarrow> 'x Solver
    \<Rightarrow> error + (bool \<times> 'x Solver)" where
  "add_xor_clause_outer ext vars rhs s =
     (if \<not> ok s then Inr (False, s)
      else
        (let lits = map (\<lambda>v. Lit v False) vars
         in if \<not> check_too_large_variable_number lits s then Inl Fatal
            else case addClauseHelper ext (back_number_from_outside_to_outer lits s) s of
                   Inl e \<Rightarrow> Inl e
                 | Inr (r, ps, s1) \<Rightarrow> add_xor_clause_inter ext ps rhs True False s1))"

section \<open>Renumbering\<close>

text \<open>
  The test both loops of the renumberer apply to a variable: it is useless when it has a
  value or has been eliminated, replaced or decomposed.
\<close>

definition var_useless :: "'x Solver \<Rightarrow> nat \<Rightarrow> bool" where
  "var_useless s i =
     (assigns s ! i \<noteq> l_Undef
      \<or> removed (varData s ! i) = elimed
      \<or> removed (varData s ! i) = replaced
      \<or> removed (varData s ! i) = decomposed)"

text \<open>
  \<open>calculate_interToOuter_and_outerToInter\<close>: the first loop numbers the useful variables
  and collects the useless ones, the second numbers the useless ones, the third extends
  both maps by the identity up to \<open>nVarsOuter\<close>.
\<close>

definition calc_loop_useful :: "'x Solver
    \<Rightarrow> nat list \<times> nat list \<times> nat \<times> nat list \<times> nat \<Rightarrow> nat
    \<Rightarrow> nat list \<times> nat list \<times> nat \<times> nat list \<times> nat" where
  "calc_loop_useful s st i =
     (case st of (outerToInter, interToOuter, at_, useless, numEffectiveVars) \<Rightarrow>
        if var_useless s i then (outerToInter, interToOuter, at_, useless @ [i], numEffectiveVars)
        else (outerToInter[i := at_], interToOuter[at_ := i], at_ + 1, useless,
              numEffectiveVars + 1))"

definition calc_loop_useless :: "nat list \<times> nat list \<times> nat \<Rightarrow> nat
    \<Rightarrow> nat list \<times> nat list \<times> nat" where
  "calc_loop_useless st v =
     (case st of (outerToInter, interToOuter, at_) \<Rightarrow>
        (outerToInter[v := at_], interToOuter[at_ := v], at_ + 1))"

definition calc_loop_identity :: "nat list \<times> nat list \<Rightarrow> nat \<Rightarrow> nat list \<times> nat list" where
  "calc_loop_identity st i =
     (case st of (outerToInter, interToOuter) \<Rightarrow> (outerToInter[i := i], interToOuter[i := i]))"

definition calculate_interToOuter_and_outerToInter :: "'x Solver \<Rightarrow> nat list \<Rightarrow> nat list
    \<Rightarrow> error + (nat list \<times> nat list \<times> nat)" where
  "calculate_interToOuter_and_outerToInter s outerToInter interToOuter =
     (case foldl (calc_loop_useful s) (outerToInter, interToOuter, 0, [], 0) [0..<nVars s] of
        (o1, i1, at1, useless, numEffectiveVars) \<Rightarrow>
          (case foldl calc_loop_useless (o1, i1, at1) useless of
             (o2, i2, at2) \<Rightarrow>
               if at2 \<noteq> nVars s then Inl AssertFail
               else (case foldl calc_loop_identity (o2, i2) [nVars s..<nVarsOuter s] of
                       (o3, i3) \<Rightarrow> Inr (o3, i3, numEffectiveVars))))"

text \<open>
  \<open>test_renumbering\<close>: the flag \<open>problem\<close> is raised by a useful variable that comes after
  a useless one; the result is \<open>True\<close> when the assertion \<open>!problem\<close> holds.
\<close>

definition test_renumbering_step :: "'x Solver \<Rightarrow> bool \<times> bool \<Rightarrow> nat \<Rightarrow> bool \<times> bool" where
  "test_renumbering_step s st i =
     (case st of (uninteresting, problem) \<Rightarrow>
        (let u1 = (if assigns s ! i \<noteq> l_Undef then True else uninteresting);
             u2 = (if removed (varData s ! i) = elimed
                      \<or> removed (varData s ! i) = replaced
                      \<or> removed (varData s ! i) = decomposed then True else u1);
             p1 = (if assigns s ! i = l_Undef
                      \<and> removed (varData s ! i) \<noteq> elimed
                      \<and> removed (varData s ! i) \<noteq> replaced
                      \<and> removed (varData s ! i) \<noteq> decomposed
                      \<and> u2 then True else problem)
         in (u2, p1)))"

definition test_renumbering :: "'x Solver \<Rightarrow> bool" where
  "test_renumbering s = (\<not> snd (foldl (test_renumbering_step s) (False, False) [0..<nVars s]))"

definition calc_renumber_saving :: "'x Solver \<Rightarrow> real" where
  "calc_renumber_saving s =
     1 - real (length (filter (\<lambda>i. \<not> var_useless s i) [0..<nVars s])) / real (nVars s)"

text \<open>
  Modelled from the spec: \<open>updateLitsMap\<close> and \<open>getUpdatedVar\<close> are not in the sources at
  hand.  A stored variable \<open>v\<close> is rewritten to \<open>outerToInter[v]\<close>, the sign of a literal
  kept.
\<close>

definition getUpdatedLit :: "nat list \<Rightarrow> Lit \<Rightarrow> Lit" where
  "getUpdatedLit outerToInter l = Lit (outerToInter ! var l) (sign l)"

definition renumber_one_clause :: "nat list \<Rightarrow> Clause list \<Rightarrow> ClOffset \<Rightarrow> Clause list" where
  "renumber_one_clause outerToInter arena off =
     arena[off := (arena ! off)\<lparr>cl_lits := map (getUpdatedLit outerToInter) (cl_lits (arena ! off)),
                               cl_strengthened := True\<rparr>]"

definition renumber_clauses :: "nat list \<Rightarrow> 'x Solver \<Rightarrow> 'x Solver" where
  "renumber_clauses outerToInter s =
     s\<lparr>cl_alloc := foldl (renumber_one_clause outerToInter)
                      (foldl (renumber_one_clause outerToInter) (cl_alloc s) (longIrredCls s))
                      (concat (longRedCls s))\<rparr>"

definition renumber_xor_clauses :: "nat list \<Rightarrow> 'x Solver \<Rightarrow> 'x Solver" where
  "renumber_xor_clauses outerToInter s =
     s\<lparr>xorclauses := map (\<lambda>x. x\<lparr>xor_vars := map (\<lambda>v. outerToInter ! v) (xor_vars x)\<rparr>)
                        (xorclauses s)\<rparr>"

text \<open>\<open>vector::resize(n, x)\<close>.\<close>

definition resize_vec :: "nat \<Rightarrow> 'a \<Rightarrow> 'a list \<Rightarrow> 'a list" where
  "resize_vec n x xs = take n xs @ replicate (n - length xs) x"

definition save_on_var_memory :: "'x Ext \<Rightarrow> nat \<Rightarrow> 'x Solver \<Rightarrow> 'x Solver" where
  "save_on_var_memory ext newNumVars s =
     (let s1 = s\<lparr>nVars := newNumVars\<rparr>;
          s2 = ext_call ext Searcher_save_on_var_memory s1;
          s3 = ext_call ext Collaborators_save_on_var_memory s2
      in s3\<lparr>assumptionsSet := resize_vec (nVars s3) False (assumptionsSet s3)\<rparr>)"

definition renumber_variables :: "'x Ext \<Rightarrow> bool \<Rightarrow> 'x Solver \<Rightarrow> error + 'x Solver" where
  "renumber_variables ext must_renumber s =
     (if nVars s = 0 then Inr s
      else if \<not> must_renumber \<and> calc_renumber_saving s < 0.2 then Inr s
      else
        (let s1 = ext_call ext ClauseCleaner_remove_and_clean_all s
         in case calculate_interToOuter_and_outerToInter s1
                   (replicate (nVarsOuter s1) 0) (replicate (nVarsOuter s1) 0) of
              Inl e \<Rightarrow> Inl e
            | Inr (outerToInter, interToOuter, numEffectiveVars) \<Rightarrow>
                (let s2 = renumber_clauses outerToInter s1;
                     s3 = ext_call ext (CNF_updateVars outerToInter interToOuter) s2;
                     s4 = ext_call ext (PropEngine_updateVars outerToInter interToOuter) s3;
                     s5 = ext_call ext (Searcher_updateVars outerToInter interToOuter) s4;
                     s6 = (if doStamp (conf s5)
                           then ext_call ext (Stamp_updateVars outerToInter interToOuter) s5
                           else s5);
                     s7 = renumber_xor_clauses outerToInter s6;
                     s8 = ext_call ext (VarReplacer_updateVars outerToInter interToOuter) s7;
                     s9 = (if doCache (conf s8)
                           then ext_call ext
                                  (ImplCache_updateVars outerToInter interToOuter numEffectiveVars) s8
                           else s8);
                     s10 = ext_call ext (DataSync_updateVars outerToInter interToOuter) s9
                 in if \<not> test_renumbering s10 then Inl AssertFail
                    else (case ext_try ext Test_reflectivity_of_renumbering s10 of
                            Inl e \<Rightarrow> Inl e
                          | Inr s11 \<Rightarrow>
                              Inr (if doSaveMem (conf s11)
                                   then save_on_var_memory ext numEffectiveVars s11
                                   else s11)))))"

section \<open>The inprocessing scheduler\<close>

definition must_interrupt_asap :: "'x Solver \<Rightarrow> bool" where
  "must_interrupt_asap s = must_interrupt_inter s"

text \<open>
  The test that \<open>execute_inprocess_strategy\<close> makes before every token and again after a
  flush of the buffered occurrence tokens.  \<open>(uint64_t)conf.maxConfl\<close> is the same word
  read unsigned.
\<close>

definition strategy_limit_reached :: "'x Ext \<Rightarrow> 'x Solver \<Rightarrow> bool" where
  "strategy_limit_reached ext s =
     (sumConflicts s \<ge> maxConfl (conf s)
      \<or> cpuTime ext s > maxTime (conf s)
      \<or> must_interrupt_asap s
      \<or> nVars s = 0
      \<or> \<not> ok s)"

text \<open>
  \<open>std::getline(ss, token, ',')\<close> in a loop: the pieces between commas; the piece after
  the last comma is read only when it has a character.
\<close>

fun split_commas :: "string \<Rightarrow> string \<Rightarrow> string list" where
  "split_commas cur [] = (if cur = [] then [] else [cur])"
| "split_commas cur (c # cs) =
     (if c = CHR '','' then cur # split_commas [] cs else split_commas (cur @ [c]) cs)"

text \<open>
  Modelled from the spec: \<open>trim\<close> is not in the sources at hand; tokens are
  whitespace-trimmed and lowercased.
\<close>

definition is_space :: "char \<Rightarrow> bool" where
  "is_space c = (c = CHR '' '' \<or> c = CHR 0x09 \<or> c = CHR 0x0A \<or> c = CHR 0x0B
                 \<or> c = CHR 0x0C \<or> c = CHR 0x0D)"

definition trim :: "string \<Rightarrow> string" where
  "trim t = rev (dropWhile is_space (rev (dropWhile is_space t)))"

definition tolower_char :: "char \<Rightarrow> char" where
  "tolower_char c =
     (case map_of (zip ''ABCDEFGHIJKLMNOPQRSTUVWXYZ'' ''abcdefghijklmnopqrstuvwxyz'') c of
        Some d \<Rightarrow> d
      | None \<Rightarrow> c)"

text \<open>The loop that cleans the implication cache to a fixpoint before a renumbering.\<close>

partial_function (option) renumber_cache_clean :: "'x Ext \<Rightarrow> 'x Solver
    \<Rightarrow> (bool \<times> 'x Solver) option" where
  "renumber_cache_clean ext s =
     (case implCache_clean_set ext s of
        (ret, setSomething, s1) \<Rightarrow>
          if \<not> ret then Some (False, s1)
          else if setSomething then renumber_cache_clean ext s1
          else Some (True, s1))"

datatype 'x TokenResult = TokReturn bool "'x Solver" | TokNext string "'x Solver" | TokError error

text \<open>
  The dispatch on one token.  \<open>TokNext\<close> carries the buffer of occurrence tokens and the
  state to the end of the loop body, \<open>TokReturn\<close> is the \<open>return false\<close> of the cache
  cleaning, \<open>TokError\<close> an exit.
\<close>

definition exec_token :: "'x Ext \<Rightarrow> string \<Rightarrow> string \<Rightarrow> 'x Solver \<Rightarrow> 'x TokenResult option" where
  "exec_token ext token occ_strategy_tokens s =
     (if token = ''find-comps'' then
        Some (TokNext occ_strategy_tokens
          (if get_num_free_vars ext s < compVarLimit (conf s)
           then ext_call ext CompFinder_find_components s else s))
      else if token = ''handle-comps'' then
        Some (TokNext occ_strategy_tokens
          (if has_compHandler s \<and> doCompHandler (conf s)
              \<and> get_num_free_vars ext s < compVarLimit (conf s)
              \<and> numSimplify s \<ge> handlerFromSimpNum (conf s)
              \<and> numSimplify s mod 2 = 0
           then ext_call ext CompHandler_handle s else s))
      else if token = ''scc-vrepl'' then
        Some (TokNext occ_strategy_tokens
          (if doFindAndReplaceEqLits (conf s)
           then ext_call ext
                  (VarReplacer_replace_if_enough_is_found (get_num_free_vars ext s div 1000)) s
           else s))
      else if token = ''cache-clean'' then
        Some (TokNext occ_strategy_tokens
          (if doCache (conf s) then ext_call ext ImplCache_clean s else s))
      else if token = ''cache-tryboth'' then
        Some (TokNext occ_strategy_tokens
          (if doCache (conf s) then ext_call ext ImplCache_tryBoth s else s))
      else if token = ''sub-impl'' then
        Some (TokNext occ_strategy_tokens
          (if doStrSubImplicit (conf s) then ext_call ext SubsumeImplicit_subsume_implicit s
           else s))
      else if token = ''intree-probe'' then
        Some (TokNext occ_strategy_tokens
          (if doIntreeProbe (conf s) then ext_call ext InTree_intree_probe s else s))
      else if token = ''probe'' then
        Some (TokNext occ_strategy_tokens
          (if doProbe (conf s) then ext_call ext Prober_probe s else s))
      else if token = ''sub-str-cls-with-bin'' then
        Some (TokNext occ_strategy_tokens
          (if do_distill_clauses (conf s) then ext_call ext Distill_long_with_implicit s else s))
      else if token = ''distill-cls'' then
        Some (TokNext occ_strategy_tokens
          (if do_distill_clauses (conf s) then ext_call ext Distill_all_with_all s else s))
      else if token = ''str-impl'' then
        Some (TokNext occ_strategy_tokens
          (if doStrSubImplicit (conf s) then ext_call ext Str_impl_w_impl_stamp s else s))
      else if token = ''check-cache-size'' then
        Some (TokNext occ_strategy_tokens
          (if doCache (conf s)
              \<and> implCache_mem_used ext s div (1024 * 1024) > maxCacheSizeMB (conf s)
           then (let s1 = ext_call ext ImplCache_free s
                 in s1\<lparr>conf := (conf s1)\<lparr>doCache := False\<rparr>\<rparr>)
           else s))
      else if token = ''renumber'' \<or> token = ''must-renumber'' then
        (if doRenumberVars (conf s) then
           (case (if doCache (conf s) then renumber_cache_clean ext s else Some (True, s)) of
              None \<Rightarrow> None
            | Some (cleaned, s1) \<Rightarrow>
                if \<not> cleaned then Some (TokReturn False s1)
                else (case renumber_variables ext (token = ''must-renumber'') s1 of
                        Inl e \<Rightarrow> Some (TokError e)
                      | Inr s2 \<Rightarrow> Some (TokNext occ_strategy_tokens s2)))
         else Some (TokNext occ_strategy_tokens s))
      else if token = [] then Some (TokNext occ_strategy_tokens s)
      else if take 3 token = ''occ'' then
        Some (TokNext (occ_strategy_tokens @ token @ '', '') s)
      else Some (TokError Fatal))"

text \<open>The flush of the buffered occurrence tokens to the occurrence simplifier.\<close>

definition flush_occ_tokens :: "'x Ext \<Rightarrow> bool \<Rightarrow> string \<Rightarrow> 'x Solver \<Rightarrow> 'x Solver" where
  "flush_occ_tokens ext startup occ_strategy_tokens s =
     (if perform_occur_based_simp (conf s) \<and> has_occsimplifier s then
        (let occ = trim occ_strategy_tokens;
             s1 = ext_call ext (OccSimplifier_simplify startup occ) s
         in if ok s1 \<and> occ = ''occ-gauss,'' \<and> USE_GAUSS ext
            then ext_call ext MatrixFinder_findMatrixes s1 else s1)
      else s)"

text \<open>
  The \<open>while\<close> loop of \<open>execute_inprocess_strategy\<close> over the tokens still to be read.
  \<open>None\<close> is a run that does not return, an error an exit or a failed assertion.
\<close>

fun exec_tokens :: "'x Ext \<Rightarrow> bool \<Rightarrow> string \<Rightarrow> string list \<Rightarrow> 'x Solver
    \<Rightarrow> (error + bool \<times> 'x Solver) option" where
  "exec_tokens ext startup occ_strategy_tokens [] s = Some (Inr (ok s, s))"
| "exec_tokens ext startup occ_strategy_tokens (tok # rest) s =
     (if strategy_limit_reached ext s then Some (Inr (ok s, s))
      else if \<not> smudged_list_empty ext s then Some (Inl AssertFail)
      else
        (let token = map tolower_char (trim tok);
             flush = (occ_strategy_tokens \<noteq> [] \<and> take 3 token \<noteq> ''occ'');
             s1 = (if flush then flush_occ_tokens ext startup occ_strategy_tokens s else s);
             occ1 = (if flush then [] else occ_strategy_tokens)
         in if flush \<and> strategy_limit_reached ext s1 then Some (Inr (ok s1, s1))
            else (case exec_token ext token occ1 s1 of
                    None \<Rightarrow> None
                  | Some (TokError e) \<Rightarrow> Some (Inl e)
                  | Some (TokReturn r s2) \<Rightarrow> Some (Inr (r, s2))
                  | Some (TokNext occ2 s2) \<Rightarrow>
                      if \<not> ok s2 then Some (Inr (ok s2, s2))
                      else exec_tokens ext startup occ2 rest s2)))"

definition execute_inprocess_strategy :: "'x Ext \<Rightarrow> bool \<Rightarrow> string \<Rightarrow> 'x Solver
    \<Rightarrow> (error + bool \<times> 'x Solver) option" where
  "execute_inprocess_strategy ext startup strategy s =
     exec_tokens ext startup [] (split_commas [] (strategy @ '', '')) s"

definition free_unused_watches :: "'x Ext \<Rightarrow> 'x Solver \<Rightarrow> error + 'x Solver" where
  "free_unused_watches ext s =
     (if list_ex (\<lambda>wsLit. (removed (varData s ! var (toLit wsLit)) = elimed
                           \<or> removed (varData s ! var (toLit wsLit)) = replaced
                           \<or> removed (varData s ! var (toLit wsLit)) = decomposed)
                          \<and> watches s ! wsLit \<noteq> [])
           [0..<length (watches s)]
      then Inl AssertFail
      else Inr (ext_call ext Consolidate_watches s))"

definition simplify_problem_tail :: "'x Ext \<Rightarrow> 'x Solver \<Rightarrow> error + (lbool \<times> 'x Solver)" where
  "simplify_problem_tail ext s =
     (case free_unused_watches ext s of
        Inl e \<Rightarrow> Inl e
      | Inr s1 \<Rightarrow>
          (let c1 = conf s1;
               m1 = global_timeout_multiplier c1 * global_timeout_multiplier_multiplier c1;
               m2 = min m1 (orig_global_timeout_multiplier c1 * global_multiplier_multiplier_max c1);
               s2 = s1\<lparr>conf := c1\<lparr>global_timeout_multiplier := m2\<rparr>\<rparr>
           in case (if nVars s2 > 2
                       \<and> (length (longIrredCls s2) > 1 \<or> irredBins s2 + redBins s2 \<noteq> 0)
                       \<and> numSimplify s2 = reconfigure_at (conf s2)
                    then ext_try ext Reconfigure s2 else Inr s2) of
                Inl e \<Rightarrow> Inl e
              | Inr s3 \<Rightarrow>
                  (let s4 = s3\<lparr>numSimplify := numSimplify s3 + 1\<rparr>
                   in if \<not> ok s4 then Inr (l_False, s4)
                      else (case ext_try ext Check_stats_after_simplify s4 of
                              Inl e \<Rightarrow> Inl e
                            | Inr s5 \<Rightarrow>
                                (let s6 = ext_call ext RebuildOrderHeap s5;
                                     s7 = ext_call ext Find_all_attach s6
                                 in case ext_try ext Test_all_clause_attached s7 of
                                      Inl e \<Rightarrow> Inl e
                                    | Inr s8 \<Rightarrow> Inr (l_Undef, s8))))))"

definition simplify_problem :: "'x Ext \<Rightarrow> bool \<Rightarrow> 'x Solver
    \<Rightarrow> (error + lbool \<times> 'x Solver) option" where
  "simplify_problem ext startup s =
     (if \<not> ok s then Some (Inl AssertFail)
      else
        (case ext_try ext Test_all_clause_attached s of
           Inl e \<Rightarrow> Some (Inl e)
         | Inr s1 \<Rightarrow>
             (let s2 = ext_call ext Find_all_attach s1;
                  s3 = ext_call ext Clear_order_heap s2
              in case execute_inprocess_strategy ext startup
                        (if startup then simplify_schedule_startup (conf s3)
                         else simplify_schedule_nonstartup (conf s3)) s3 of
                   None \<Rightarrow> None
                 | Some (Inl e) \<Rightarrow> Some (Inl e)
                 | Some (Inr (r, s4)) \<Rightarrow> Some (simplify_problem_tail ext s4))))"

section \<open>The search driver\<close>

text \<open>
  The conversion of a \<open>double\<close> to \<open>long\<close> truncates towards zero; a value outside the
  range of \<open>long\<close> is undefined in the source and wraps here.
\<close>

definition trunc_double :: "real \<Rightarrow> int" where
  "trunc_double x = (if x \<ge> 0 then \<lfloor>x\<rfloor> else \<lceil>x\<rceil>)"

definition long_of_double :: "real \<Rightarrow> 64 word" where
  "long_of_double x = word_of_int (trunc_double x)"

text \<open>\<open>std::min<long>(a, b)\<close>: \<open>b\<close> when \<open>b < a\<close> as signed numbers, else \<open>a\<close>.\<close>

definition min_long :: "64 word \<Rightarrow> 64 word \<Rightarrow> 64 word" where
  "min_long a b = (if sint b < sint a then b else a)"

definition calc_num_confl_to_do_this_iter :: "'x Solver \<Rightarrow> nat \<Rightarrow> 64 word" where
  "calc_num_confl_to_do_this_iter s iteration_num =
     (let mult = num_conflicts_of_search_inc (conf s) ^ iteration_num;
          mult1 = min mult (num_conflicts_of_search_inc_max (conf s));
          num_conflicts_of_search0 =
            long_of_double (real (unat (num_conflicts_of_search (conf s))) * mult1);
          num_conflicts_of_search1 =
            (if never_stop_search (conf s) then 500 * 1000 * 1000 else num_conflicts_of_search0)
      in min_long num_conflicts_of_search1 (maxConfl (conf s) - sumConflicts s))"

definition dump_memory_stats_to_sql :: "'x Ext \<Rightarrow> 'x Solver \<Rightarrow> 'x Solver" where
  "dump_memory_stats_to_sql ext s = (if \<not> has_sqlStats s then s else ext_call ext SqlStats_mem_used s)"

text \<open>What one round of the driver does after \<open>Searcher::solve\<close> has returned.\<close>

definition after_search :: "'x Ext \<Rightarrow> lbool \<Rightarrow> 'x Solver \<Rightarrow> 'x Solver" where
  "after_search ext status s =
     (let s1 = ext_call ext Clear_gauss s;
          s2 = ext_call ext (Check_recursive_minimization_effectiveness status) s1;
          s3 = ext_call ext (Check_minimization_effectiveness status) s2;
          s4 = ext_call ext Fold_search_stats s3
      in ext_call ext Check_too_many_low_glues s4)"

text \<open>
  The \<open>while\<close> loop of \<open>iterate_until_solved\<close>.  The search may go on for ever, so the loop
  is a partial function: \<open>None\<close> is a run that does not return.
\<close>

partial_function (option) iterate_loop :: "'x Ext \<Rightarrow> 64 word \<Rightarrow> nat \<Rightarrow> lbool \<Rightarrow> 'x Solver
    \<Rightarrow> (error + lbool \<times> 'x Solver) option" where
  "iterate_loop ext backup_burst_len iteration_num0 status s =
     (if status = l_Undef
         \<and> \<not> must_interrupt_asap s
         \<and> cpuTime ext s < maxTime (conf s)
         \<and> sumConflicts s < maxConfl (conf s)
      then
        (let iteration_num = iteration_num0 + 1;
             s1 = (if iteration_num \<ge> 2
                   then s\<lparr>conf := (conf s)\<lparr>burst_search_len := backup_burst_len\<rparr>\<rparr> else s);
             s2 = dump_memory_stats_to_sql ext s1;
             num_confl = calc_num_confl_to_do_this_iter s2 iteration_num
         in if sint num_confl \<le> 0 then Some (Inr (status, s2))
            else
              (case Searcher_solve ext num_confl iteration_num s2 of
                 (status1, s3) \<Rightarrow>
                   (let s4 = after_search ext status1 s3
                    in if status1 \<noteq> l_Undef then Some (Inr (status1, s4))
                       else if sumConflicts s4 \<ge> maxConfl (conf s4)
                               \<or> cpuTime ext s4 > maxTime (conf s4)
                               \<or> must_interrupt_asap s4
                       then Some (Inr (status1, s4))
                       else if do_simplify_problem (conf s4) then
                         (case simplify_problem ext False s4 of
                            None \<Rightarrow> None
                          | Some (Inl e) \<Rightarrow> Some (Inl e)
                          | Some (Inr (status2, s5)) \<Rightarrow>
                              iterate_loop ext backup_burst_len iteration_num status2 s5)
                       else iterate_loop ext backup_burst_len iteration_num status1 s4)))
      else Some (Inr (status, s)))"

definition iterate_until_solved :: "'x Ext \<Rightarrow> 'x Solver
    \<Rightarrow> (error + lbool \<times> 'x Solver) option" where
  "iterate_until_solved ext s =
     (let backup_burst_len = burst_search_len (conf s);
          s0 = s\<lparr>conf := (conf s)\<lparr>burst_search_len := 0\<rparr>\<rparr>
      in case iterate_loop ext backup_burst_len 0 l_Undef s0 of
           None \<Rightarrow> None
         | Some (Inl e) \<Rightarrow> Some (Inl e)
         | Some (Inr (status, s1)) \<Rightarrow>
             (let s2 = ext_call ext Clear_gauss s1
              in Some (Inr (status, s2\<lparr>conf := (conf s2)\<lparr>burst_search_len := backup_burst_len\<rparr>\<rparr>))))"

section \<open>The solve call\<close>

definition check_config_parameters :: "'x Solver \<Rightarrow> bool" where
  "check_config_parameters s =
     (\<not> (sint (maxConfl (conf s)) < 0) \<and> \<not> (shortTermHistorySize (conf s) \<le> 0))"

definition set_assumptions :: "'x Ext \<Rightarrow> 'x Solver \<Rightarrow> error + 'x Solver" where
  "set_assumptions ext s =
     (if \<not> ok s then Inl AssertFail
      else
        (let s1 = s\<lparr>conflict := [], assumptions := []\<rparr>
         in case addClauseHelper ext
                   (back_number_from_outside_to_outer (outside_assumptions s1) s1) s1 of
              Inl e \<Rightarrow> Inl e
            | Inr (r, inter_assumptions, s2) \<Rightarrow>
                (let s3 = s2\<lparr>assumptionsSet := resize_vec (nVars s2) False (assumptionsSet s2)\<rparr>
                 in if outside_assumptions s3 = [] then Inr s3
                    else if length inter_assumptions \<noteq> length (outside_assumptions s3)
                    then Inl AssertFail
                    else Inr (ext_call ext Fill_assumptions_set_from
                                (s3\<lparr>assumptions := zip inter_assumptions
                                                      (outside_assumptions s3)\<rparr>)))))"

text \<open>
  The largest \<open>long\<close> and the largest finite \<open>double\<close>, the values of
  \<open>numeric_limits<long>::max()\<close> and \<open>numeric_limits<double>::max()\<close>.
\<close>

definition LONG_MAX :: "64 word" where
  "LONG_MAX = 2 ^ 63 - 1"

definition DBL_MAX :: real where
  "DBL_MAX = (2 - 1 / 2 ^ 52) * 2 ^ 1023"

text \<open>
  The body of \<open>solve\<close> from the test of \<open>ok\<close> up to the label \<open>end\<close>: its result is the
  status with which the label is reached.
\<close>

definition solve_body :: "'x Ext \<Rightarrow> 'x Solver \<Rightarrow> (error + lbool \<times> 'x Solver) option" where
  "solve_body ext s =
     (if \<not> ok s then
        (if conflict s \<noteq> [] then Some (Inl AssertFail) else Some (Inr (l_False, s)))
      else
        (case set_assumptions ext (ext_call ext DataSync_rebuild_bva_map s) of
           Inl e \<Rightarrow> Some (Inl e)
         | Inr s1 \<Rightarrow>
             (case (if preprocess (conf s1) = 2 then load_state_and_solution ext s1
                    else (l_Undef, s1)) of
                (status1, s2) \<Rightarrow>
                  (case (if status1 = l_Undef \<and> nVars s2 > 0
                            \<and> do_simplify_problem (conf s2)
                            \<and> simplify_at_startup (conf s2)
                            \<and> (numSimplify s2 = 0 \<or> simplify_at_every_startup (conf s2))
                         then simplify_problem ext (\<not> full_simplify_at_startup (conf s2)) s2
                         else Some (Inr (status1, s2))) of
                     None \<Rightarrow> None
                   | Some (Inl e) \<Rightarrow> Some (Inl e)
                   | Some (Inr (status2, s3)) \<Rightarrow>
                       if status2 = l_Undef \<and> preprocess (conf s3) = 0 then
                         (if USE_GAUSS ext then
                            (let s4 = ext_call ext MatrixFinder_findMatrixes
                                        (ext_call ext Clear_gauss s3)
                             in if \<not> ok s4 then Some (Inr (l_False, s4))
                                else iterate_until_solved ext s4)
                          else iterate_until_solved ext s3)
                       else Some (Inr (status2, s3))))))"

text \<open>The code of \<open>solve\<close> after the label \<open>end\<close>.\<close>

definition solve_end :: "'x Ext \<Rightarrow> lbool \<Rightarrow> 'x Solver \<Rightarrow> error + lbool \<times> 'x Solver" where
  "solve_end ext status s =
     (let s1 = (if has_sqlStats s then ext_call ext (SqlStats_finishup status) s else s)
      in case (if preprocess (conf s1) = 1
               then (let s2 = ext_call ext (CancelUntil 0) s1;
                         s3 = (if status \<noteq> l_False
                               then ext_call ext ClauseCleaner_remove_and_clean_all s2 else s2)
                     in ext_try ext (Save_state_and_dump status) s3)
               else Inr s1) of
           Inl e \<Rightarrow> Inl e
         | Inr s4 \<Rightarrow>
             (case ext_try ext (Handle_found_solution status) s4 of
                Inl e \<Rightarrow> Inl e
              | Inr s5 \<Rightarrow>
                  (let s6 = ext_call ext Unfill_assumptions_set_from s5;
                       s7 = s6\<lparr>conf := (conf s6)\<lparr>maxConfl := LONG_MAX\<rparr>\<rparr>;
                       s8 = s7\<lparr>conf := (conf s7)\<lparr>maxTime := DBL_MAX\<rparr>\<rparr>
                   in Inr (status, s8))))"

definition solve :: "'x Ext \<Rightarrow> 'x Solver \<Rightarrow> (error + lbool \<times> 'x Solver) option" where
  "solve ext s =
     (let s1 = s\<lparr>num_solve_calls := num_solve_calls s + 1, conflict := []\<rparr>
      in if \<not> check_config_parameters s1 then Some (Inl Fatal)
         else
           (let s2 = ext_call ext Set_restart_parameters s1;
                s3 = s2\<lparr>conf := (conf s2)\<lparr>global_timeout_multiplier :=
                                             orig_global_timeout_multiplier (conf s2)\<rparr>\<rparr>
            in case solve_body ext s3 of
                 None \<Rightarrow> None
               | Some (Inl e) \<Rightarrow> Some (Inl e)
               | Some (Inr (status, s4)) \<Rightarrow> Some (solve_end ext status s4)))"

section \<open>The model minimizer\<close>

text \<open>
  Modelled from the spec: struct \<open>FindUndef\<close>, the working state of \<open>undefine\<close>, is declared
  in a header that is not part of the sources at hand.  Its fields are the ones \<open>undefine\<close>
  and its helpers use: \<open>can_be_unset\<close> holds a count per variable (a variable is a candidate
  iff its entry is not zero) in an \<open>unsigned char\<close>, the counters are 32-bit.
\<close>

record FindUndef =
  trail_lim_vars :: "nat list"
  can_be_unsetSum :: "32 word"
  num_fixed :: "32 word"
  dontLookAtClause :: "bool list"
  can_be_unset :: "8 word list"
  satisfies :: "32 word list"
  must_fix :: bool

text \<open>
  Modelled from the spec: \<open>model_value\<close> is a header function; the value of a literal in the
  model is the value of its variable, flipped when the literal is negative.
\<close>

definition model_value :: "'x Solver \<Rightarrow> Lit \<Rightarrow> lbool" where
  "model_value s l = lbool_xor (model s ! var l) (sign l)"

text \<open>
  The first loop of \<open>undef_look_at_one_clause\<close>: \<open>None\<close> is the early \<open>return true\<close> at a
  true literal whose variable cannot be unset; otherwise the last candidate seen and the
  number of true candidate literals (a clause has fewer than \<open>2 ^ 28\<close> literals, so the
  32-bit counter of the source does not wrap).
\<close>

fun look_scan :: "'x Solver \<Rightarrow> FindUndef \<Rightarrow> Lit list \<Rightarrow> nat \<Rightarrow> nat \<Rightarrow> (nat \<times> nat) option" where
  "look_scan s u [] v numTrue = Some (v, numTrue)"
| "look_scan s u (l # ls) v numTrue =
     (if model_value s l = l_True then
        (if can_be_unset u ! var l \<noteq> 0 then look_scan s u ls (var l) (numTrue + 1)
         else None)
      else look_scan s u ls v numTrue)"

definition count_satisfies :: "'x Solver \<Rightarrow> 32 word list \<Rightarrow> Lit \<Rightarrow> 32 word list" where
  "count_satisfies s sat l =
     (if model_value s l = l_True then sat[var l := sat ! var l + 1] else sat)"

definition undef_look_at_one_clause :: "'x Solver \<Rightarrow> Lit list \<Rightarrow> FindUndef
    \<Rightarrow> error + (bool \<times> FindUndef)" where
  "undef_look_at_one_clause s c u =
     (case look_scan s u c var_Undef 0 of
        None \<Rightarrow> Inr (True, u)
      | Some (v, numTrue) \<Rightarrow>
          if numTrue = 1 then
            (if v = var_Undef then Inl AssertFail
             else if can_be_unset u ! v = 0 then Inl AssertFail
             else Inr (True, u\<lparr>can_be_unset := (can_be_unset u)[v := 0],
                              can_be_unsetSum := can_be_unsetSum u - 1\<rparr>))
          else
            (let u1 = u\<lparr>must_fix := True\<rparr>
             in if \<not> numTrue > 1 then Inl AssertFail
                else Inr (False, u1\<lparr>satisfies := foldl (count_satisfies s) (satisfies u1) c\<rparr>)))"

fun undef_long_loop :: "'x Solver \<Rightarrow> nat list \<Rightarrow> FindUndef \<Rightarrow> error + FindUndef" where
  "undef_long_loop s [] u = Inr u"
| "undef_long_loop s (i # rest) u =
     (if dontLookAtClause u ! i then undef_long_loop s rest u
      else
        (case undef_look_at_one_clause s (cl_lits (cl_alloc s ! (longIrredCls s ! i))) u of
           Inl e \<Rightarrow> Inl e
         | Inr (r, u1) \<Rightarrow>
             undef_long_loop s rest
               (if r then u1\<lparr>dontLookAtClause := (dontLookAtClause u1)[i := True]\<rparr> else u1)))"

fun undef_watch_loop :: "'x Solver \<Rightarrow> Lit \<Rightarrow> Watched list \<Rightarrow> FindUndef \<Rightarrow> error + FindUndef" where
  "undef_watch_loop s l [] u = Inr u"
| "undef_watch_loop s l (w # ws) u =
     (if isBin w \<and> lit_less l (w_lit2 w) then
        (case undef_look_at_one_clause s [l, w_lit2 w] u of
           Inl e \<Rightarrow> Inl e
         | Inr (r, u1) \<Rightarrow> undef_watch_loop s l ws u1)
      else undef_watch_loop s l ws u)"

fun undef_bin_loop :: "'x Solver \<Rightarrow> nat list \<Rightarrow> FindUndef \<Rightarrow> error + FindUndef" where
  "undef_bin_loop s [] u = Inr u"
| "undef_bin_loop s (i # rest) u =
     (let l = toLit i
      in if can_be_unset u ! var l = 0 \<and> model_value s l = l_True
         then undef_bin_loop s rest u
         else (case undef_watch_loop s l (watches s ! toInt l) u of
                 Inl e \<Rightarrow> Inl e
               | Inr u1 \<Rightarrow> undef_bin_loop s rest u1))"

text \<open>\<open>undef_check_must_fix\<close>; its return value is the field \<open>must_fix\<close> of the result.\<close>

definition undef_check_must_fix :: "'x Solver \<Rightarrow> FindUndef \<Rightarrow> error + FindUndef" where
  "undef_check_must_fix s u =
     (case undef_long_loop s [0..<length (longIrredCls s)] (u\<lparr>must_fix := False\<rparr>) of
        Inl e \<Rightarrow> Inl e
      | Inr u1 \<Rightarrow> undef_bin_loop s [0..<nVars s * 2] u1)"

text \<open>The search for the candidate that satisfies the most clauses.\<close>

definition undef_pick_step :: "FindUndef \<Rightarrow> 32 word \<times> nat \<Rightarrow> nat \<Rightarrow> 32 word \<times> nat" where
  "undef_pick_step u st i =
     (case st of (maximum, v) \<Rightarrow>
        if can_be_unset u ! i \<noteq> 0 \<and> satisfies u ! i \<ge> maximum then (satisfies u ! i, i)
        else (maximum, v))"

definition undef_pick :: "FindUndef \<Rightarrow> nat" where
  "undef_pick u = snd (foldl (undef_pick_step u) (0, var_Undef) [0..<length (can_be_unset u)])"

text \<open>The number of variables that can still be unset: the measure of the main loop.\<close>

definition num_candidates :: "FindUndef \<Rightarrow> nat" where
  "num_candidates u = length (filter (\<lambda>x. x \<noteq> 0) (can_be_unset u))"

lemma filter_update_zero_le:
  "length (filter (\<lambda>x. x \<noteq> (0::8 word)) (xs[v := 0])) \<le> length (filter (\<lambda>x. x \<noteq> 0) xs)"
proof (induction xs arbitrary: v)
  case Nil
  then show ?case by simp
next
  case (Cons a xs)
  then show ?case by (cases v) (auto simp: le_SucI)
qed

lemma filter_update_zero_less:
  "v < length xs \<Longrightarrow> xs ! v \<noteq> (0::8 word)
     \<Longrightarrow> length (filter (\<lambda>x. x \<noteq> 0) (xs[v := 0])) < length (filter (\<lambda>x. x \<noteq> 0) xs)"
proof (induction xs arbitrary: v)
  case Nil
  then show ?case by simp
next
  case (Cons a xs)
  show ?case
  proof (cases v)
    case 0
    with Cons.prems show ?thesis by simp
  next
    case (Suc n)
    with Cons.prems have "n < length xs" "xs ! n \<noteq> 0" by auto
    from Cons.IH[OF this] Suc show ?thesis by simp
  qed
qed

lemma look_num_candidates:
  "undef_look_at_one_clause s c u = Inr (r, u1) \<Longrightarrow> num_candidates u1 \<le> num_candidates u"
  by (auto simp: undef_look_at_one_clause_def num_candidates_def Let_def filter_update_zero_le
           split: option.splits if_splits prod.splits)

lemma long_loop_num_candidates:
  "undef_long_loop s is u = Inr u1 \<Longrightarrow> num_candidates u1 \<le> num_candidates u"
proof (induction "is" arbitrary: u)
  case Nil
  then show ?case by simp
next
  case (Cons i rest)
  show ?case
  proof (cases "dontLookAtClause u ! i")
    case True
    with Cons show ?thesis by simp
  next
    case False
    with Cons.prems obtain r u2 where
      look: "undef_look_at_one_clause s (cl_lits (cl_alloc s ! (longIrredCls s ! i))) u = Inr (r, u2)"
      and rest: "undef_long_loop s rest
          (if r then u2\<lparr>dontLookAtClause := (dontLookAtClause u2)[i := True]\<rparr> else u2) = Inr u1"
      by (auto split: sum.splits)
    from Cons.IH[OF rest] look_num_candidates[OF look] show ?thesis
      by (auto simp: num_candidates_def split: if_splits)
  qed
qed

lemma watch_loop_num_candidates:
  "undef_watch_loop s l ws u = Inr u1 \<Longrightarrow> num_candidates u1 \<le> num_candidates u"
proof (induction ws arbitrary: u)
  case Nil
  then show ?case by simp
next
  case (Cons w ws)
  show ?case
  proof (cases "isBin w \<and> lit_less l (w_lit2 w)")
    case True
    with Cons.prems obtain r u2 where
      look: "undef_look_at_one_clause s [l, w_lit2 w] u = Inr (r, u2)"
      and rest: "undef_watch_loop s l ws u2 = Inr u1"
      by (auto split: sum.splits)
    from Cons.IH[OF rest] look_num_candidates[OF look] show ?thesis by simp
  next
    case False
    with Cons show ?thesis by auto
  qed
qed

lemma bin_loop_num_candidates:
  "undef_bin_loop s is u = Inr u1 \<Longrightarrow> num_candidates u1 \<le> num_candidates u"
proof (induction "is" arbitrary: u)
  case Nil
  then show ?case by simp
next
  case (Cons i rest)
  show ?case
  proof (cases "can_be_unset u ! var (toLit i) = 0 \<and> model_value s (toLit i) = l_True")
    case True
    with Cons show ?thesis by (simp add: Let_def)
  next
    case False
    with Cons.prems obtain u2 where
      w: "undef_watch_loop s (toLit i) (watches s ! toInt (toLit i)) u = Inr u2"
      and rest: "undef_bin_loop s rest u2 = Inr u1"
      by (auto simp: Let_def split: sum.splits)
    from Cons.IH[OF rest] watch_loop_num_candidates[OF w] show ?thesis by simp
  qed
qed

lemma check_must_fix_num_candidates:
  "undef_check_must_fix s u = Inr u1 \<Longrightarrow> num_candidates u1 \<le> num_candidates u"
  unfolding undef_check_must_fix_def
  using long_loop_num_candidates bin_loop_num_candidates
  by (fastforce simp: num_candidates_def split: sum.splits)

lemma undef_pick_step_range:
  "snd st = var_Undef \<or> snd st < n \<Longrightarrow> i < n
     \<Longrightarrow> snd (undef_pick_step u st i) = var_Undef \<or> snd (undef_pick_step u st i) < n"
  by (cases st) (auto simp: undef_pick_step_def)

lemma undef_pick_fold_range:
  "snd st = var_Undef \<or> snd st < n \<Longrightarrow> set is \<subseteq> {..<n}
     \<Longrightarrow> snd (foldl (undef_pick_step u) st is) = var_Undef
         \<or> snd (foldl (undef_pick_step u) st is) < n"
proof (induction "is" arbitrary: st)
  case Nil
  then show ?case by simp
next
  case (Cons i rest)
  then show ?case using undef_pick_step_range[of st n i u] by auto
qed

lemma undef_pick_range:
  "undef_pick u = var_Undef \<or> undef_pick u < length (can_be_unset u)"
  unfolding undef_pick_def
  by (rule undef_pick_fold_range) auto

text \<open>
  The main loop of \<open>undefine\<close>: while a clause asks for a fix and candidates are counted,
  fix the candidate that satisfies the most clauses.
\<close>

function undefine_loop :: "'x Solver \<Rightarrow> FindUndef \<Rightarrow> error + FindUndef" where
  "undefine_loop s u =
     (case undef_check_must_fix s u of
        Inl e \<Rightarrow> Inl e
      | Inr u1 \<Rightarrow>
          if must_fix u1 \<and> can_be_unsetSum u1 > 0 then
            (let v = undef_pick u1
             in if v = var_Undef then Inl AssertFail
                else if can_be_unset u1 ! v = 0 then Inl AssertFail
                else undefine_loop s
                       (u1\<lparr>can_be_unset := (can_be_unset u1)[v := 0],
                           can_be_unsetSum := can_be_unsetSum u1 - 1,
                           num_fixed := num_fixed u1 + 1,
                           satisfies := replicate (length (satisfies u1)) 0\<rparr>))
          else Inr u1)"
  by pat_completeness auto
termination
proof (relation "measure (\<lambda>(s, u). num_candidates u)", goal_cases)
  case 1
  then show ?case by simp
next
  case (2 s u u1 v)
  from 2 have le: "num_candidates u1 \<le> num_candidates u"
    using check_must_fix_num_candidates by blast
  from 2 undef_pick_range[of u1] have "v < length (can_be_unset u1)" by auto
  with 2 have "length (filter (\<lambda>x. x \<noteq> 0) ((can_be_unset u1)[v := 0]))
      < length (filter (\<lambda>x. x \<noteq> 0) (can_be_unset u1))"
    by (intro filter_update_zero_less) auto
  with le show ?case by (simp add: num_candidates_def)
qed

text \<open>
  \<open>undef_fill_potentials\<close>.  First loop: every variable of the trail above level 0 that
  has a value in the model and is not an assumption is marked; the loop walks the trail
  from its end.
\<close>

fun undef_fill_trail :: "'x Solver \<Rightarrow> nat list \<Rightarrow> FindUndef \<Rightarrow> error + FindUndef" where
  "undef_fill_trail s [] u = Inr u"
| "undef_fill_trail s (v # rest) u =
     (if removed (varData s ! v) \<noteq> none then Inl AssertFail
      else if \<not> length (assumptionsSet s) > v then Inl AssertFail
      else undef_fill_trail s rest
             (if model s ! v \<noteq> l_Undef \<and> assumptionsSet s ! v = False
              then u\<lparr>can_be_unset := (can_be_unset u)[v := can_be_unset u ! v + 1],
                     can_be_unsetSum := (if independent_vars (conf s) = None
                                         then can_be_unsetSum u + 1 else can_be_unsetSum u)\<rparr>
              else u))"

text \<open>Second loop: the variables of the independent set, mapped to the inter numbering.\<close>

fun undef_fill_independent :: "'x Solver \<Rightarrow> nat list \<Rightarrow> FindUndef \<Rightarrow> error + FindUndef" where
  "undef_fill_independent s [] u = Inr u"
| "undef_fill_independent s (v # rest) u =
     (if v > nVarsOutside s then Inl Fatal
      else
        (let v1 = map_outer_to_inter s (outer_to_with_bva_map s ! v)
         in if v1 < nVars s then
              (let c = can_be_unset u ! v1 + 1
               in undef_fill_independent s rest
                    (u\<lparr>can_be_unset := (can_be_unset u)[v1 := c],
                       can_be_unsetSum := (if c = 2 then can_be_unsetSum u + 1
                                           else can_be_unsetSum u)\<rparr>))
            else undef_fill_independent s rest u))"

definition undef_fill_replacing :: "FindUndef \<Rightarrow> nat \<Rightarrow> FindUndef" where
  "undef_fill_replacing u v =
     (if can_be_unset u ! v \<noteq> 0
      then u\<lparr>can_be_unset := (can_be_unset u)[v := 0], can_be_unsetSum := can_be_unsetSum u - 1\<rparr>
      else u)"

definition undef_fill_potentials :: "'x Ext \<Rightarrow> 'x Solver \<Rightarrow> FindUndef \<Rightarrow> error + FindUndef" where
  "undef_fill_potentials ext s u =
     (case undef_fill_trail s (rev (trail_lim_vars u)) u of
        Inl e \<Rightarrow> Inl e
      | Inr u1 \<Rightarrow>
          (case (case independent_vars (conf s) of
                   None \<Rightarrow> Inr u1
                 | Some vs \<Rightarrow>
                     (case undef_fill_independent s vs u1 of
                        Inl e \<Rightarrow> Inl e
                      | Inr u2 \<Rightarrow>
                          Inr (u2\<lparr>can_be_unset :=
                                    map (\<lambda>x. if x < 2 then 0 else x) (can_be_unset u2)\<rparr>))) of
             Inl e \<Rightarrow> Inl e
           | Inr u3 \<Rightarrow> Inr (foldl undef_fill_replacing u3 (get_vars_replacing_others ext s))))"

definition undef_unset_step :: "FindUndef \<Rightarrow> lbool list \<Rightarrow> nat \<Rightarrow> lbool list" where
  "undef_unset_step u m i = (if can_be_unset u ! i \<noteq> 0 then m[i := l_Undef] else m)"

definition undef_unset_potentials :: "FindUndef \<Rightarrow> 'x Solver \<Rightarrow> 'x Solver" where
  "undef_unset_potentials u s =
     s\<lparr>model := foldl (undef_unset_step u) (model s) [0..<length (can_be_unset u)]\<rparr>"

text \<open>The part of \<open>undefine\<close> that follows \<open>undef_fill_potentials\<close>.\<close>

definition undefine_from :: "'x Solver \<Rightarrow> FindUndef \<Rightarrow> error + (32 word \<times> 'x Solver)" where
  "undefine_from s u =
     (case undefine_loop s u of
        Inl e \<Rightarrow> Inl e
      | Inr u1 \<Rightarrow> Inr (can_be_unsetSum u1, undef_unset_potentials u1 s))"

definition undefine :: "'x Ext \<Rightarrow> nat list \<Rightarrow> 'x Solver \<Rightarrow> error + (32 word \<times> 'x Solver)" where
  "undefine ext trail_lim_vars0 s =
     (case undef_fill_potentials ext s
             \<lparr>trail_lim_vars = trail_lim_vars0, can_be_unsetSum = 0, num_fixed = 0,
              dontLookAtClause = replicate (length (longIrredCls s)) False,
              can_be_unset = replicate (nVarsOuter s) 0,
              satisfies = replicate (nVarsOuter s) 0,
              must_fix = False\<rparr> of
        Inl e \<Rightarrow> Inl e
      | Inr u \<Rightarrow> undefine_from s u)"

subsection \<open>Notions for the soundness of the minimizer\<close>

text \<open>
  Notions for the soundness of the model minimizer.  A literal is a fixed true literal when
  it is true in the model and its variable is not a candidate for unsetting; the counter
  is exact when it is the number of candidates.
\<close>

definition fixed_true :: "'x Solver \<Rightarrow> FindUndef \<Rightarrow> Lit \<Rightarrow> bool" where
  "fixed_true s u l = (model_value s l = l_True \<and> can_be_unset u ! var l = 0)"

definition counter_exact :: "FindUndef \<Rightarrow> bool" where
  "counter_exact u = (unat (can_be_unsetSum u) = num_candidates u)"

definition shrinks :: "FindUndef \<Rightarrow> FindUndef \<Rightarrow> bool" where
  "shrinks u u1 = (length (can_be_unset u1) = length (can_be_unset u)
     \<and> (\<forall>v. can_be_unset u ! v = 0 \<longrightarrow> can_be_unset u1 ! v = 0))"

definition long_clause :: "'x Solver \<Rightarrow> nat \<Rightarrow> Lit list" where
  "long_clause s i = cl_lits (cl_alloc s ! (longIrredCls s ! i))"

definition dont_look_ok :: "'x Solver \<Rightarrow> FindUndef \<Rightarrow> bool" where
  "dont_look_ok s u = (\<forall>i < length (longIrredCls s). dontLookAtClause u ! i
      \<longrightarrow> (\<exists>l \<in> set (long_clause s i). fixed_true s u l))"

text \<open>
  The model satisfies every long irredundant clause and every binary clause of the watch
  lists, and their variables are below \<open>n\<close>.
\<close>

definition clauses_sat :: "'x Solver \<Rightarrow> nat \<Rightarrow> bool" where
  "clauses_sat s n =
     ((\<forall>i < length (longIrredCls s).
         (\<forall>l \<in> set (long_clause s i). var l < n)
         \<and> (\<exists>l \<in> set (long_clause s i). model_value s l = l_True))
      \<and> (\<forall>i < 2 * nVars s. \<forall>w \<in> set (watches s ! i). isBin w \<longrightarrow>
            var (w_lit2 w) < n
            \<and> (model_value s (toLit i) = l_True \<or> model_value s (w_lit2 w) = l_True)))"

text \<open>Every clause that \<open>undef_check_must_fix\<close> visits has a fixed true literal.\<close>

definition all_fixed :: "'x Solver \<Rightarrow> FindUndef \<Rightarrow> bool" where
  "all_fixed s u =
     ((\<forall>i < length (longIrredCls s). \<exists>l \<in> set (long_clause s i). fixed_true s u l)
      \<and> (\<forall>i < 2 * nVars s. \<forall>w \<in> set (watches s ! i).
            isBin w \<and> lit_less (toLit i) (w_lit2 w) \<longrightarrow>
            fixed_true s u (toLit i) \<or> fixed_true s u (w_lit2 w)))"

text \<open>
  Every binary watch has its partner: the clause \<open>l \<or> l'\<close> is in the list of \<open>l\<close> and in
  the list of \<open>l'\<close>, and \<open>l \<noteq> l'\<close>.
\<close>

definition watches_paired :: "'x Solver \<Rightarrow> bool" where
  "watches_paired s =
     (\<forall>i < 2 * nVars s. \<forall>w \<in> set (watches s ! i). isBin w \<longrightarrow>
        w_lit2 w \<noteq> toLit i \<and> toInt (w_lit2 w) < 2 * nVars s
        \<and> (\<exists>w' \<in> set (watches s ! toInt (w_lit2 w)). isBin w' \<and> w_lit2 w' = toLit i))"

text \<open>What the caller of \<open>undefine\<close> provides.\<close>

definition undef_inputs_ok :: "'x Ext \<Rightarrow> nat list \<Rightarrow> 'x Solver \<Rightarrow> bool" where
  "undef_inputs_ok ext tlv s =
     (nVars s \<le> nVarsOuter s \<and> nVarsOuter s \<le> var_Undef
      \<and> distinct tlv
      \<and> (\<forall>v \<in> set tlv. v < nVarsOuter s \<and> removed (varData s ! v) = none
            \<and> v < length (assumptionsSet s))
      \<and> (case independent_vars (conf s) of
            None \<Rightarrow> True
          | Some vs \<Rightarrow>
              (\<forall>v \<in> set vs. v \<le> nVarsOutside s)
              \<and> distinct (map (\<lambda>v. map_outer_to_inter s (outer_to_with_bva_map s ! v)) vs))
      \<and> (\<forall>v \<in> set (get_vars_replacing_others ext s). v < nVarsOuter s))"

section \<open>Concrete solvers\<close>

text \<open>
  A configuration, the solver before any variable is declared, a solver with \<open>n\<close> declared
  variables and no clause, and collaborators that do nothing; the theorems are instantiated
  on them.
\<close>

definition conf0 :: SolverConf where
  "conf0 = \<lparr>perform_occur_based_simp = False,
            glue_put_lev0_if_below_or_eq = 3,
            glue_put_lev1_if_below_or_eq = 6,
            maxConfl = 1000000,
            maxTime = 1000,
            num_conflicts_of_search = 100,
            num_conflicts_of_search_inc = 2,
            num_conflicts_of_search_inc_max = 10,
            never_stop_search = False,
            burst_search_len = 300,
            do_simplify_problem = True,
            simplify_at_startup = False,
            simplify_at_every_startup = False,
            full_simplify_at_startup = False,
            simplify_schedule_startup = ''sub-impl, scc-vrepl'',
            simplify_schedule_nonstartup = ''sub-impl, scc-vrepl, renumber'',
            preprocess = 0,
            doCompHandler = False,
            doFindAndReplaceEqLits = False,
            doCache = False,
            doStamp = False,
            doStrSubImplicit = False,
            doIntreeProbe = False,
            doProbe = False,
            do_distill_clauses = False,
            doRenumberVars = False,
            doSaveMem = False,
            compVarLimit = 1000,
            handlerFromSimpNum = 0,
            maxCacheSizeMB = 2048,
            independent_vars = None,
            global_timeout_multiplier = 1,
            orig_global_timeout_multiplier = 1,
            global_timeout_multiplier_multiplier = 1,
            global_multiplier_multiplier_max = 3,
            reconfigure_at = 2,
            reconfigure_val = 0,
            shortTermHistorySize = 50\<rparr>"

definition solver0 :: "unit Solver" where
  "solver0 = \<lparr>ok = True, conf = conf0, nVars = 0, nVarsOuter = 0, num_bva_vars = 0,
              assigns = [], varData = [], trail = [], trail_lim = [], qhead = 0,
              watches = [], cl_alloc = [], longIrredCls = [], longRedCls = [[], [], []],
              xorclauses = [], irredLits = 0, redLits = 0, irredBins = 0, redBins = 0,
              numNewBinsSinceSCC = 0, undef_must_set_vars = [],
              interToOuterMain = [], outerToInterMain = [], outer_to_with_bva_map = [],
              assumptionsSet = [], sumConflicts = 0, zeroLevAssignsByCNF = 0,
              num_solve_calls = 0, numSimplify = 0, drat_enabled = False, drat_log = [],
              must_interrupt_inter = False, has_compHandler = False,
              has_occsimplifier = False, has_sqlStats = False, model = [], conflict = [],
              assumptions = [], outside_assumptions = [], hidden = ()\<rparr>"

definition solver_vars :: "nat \<Rightarrow> unit Solver" where
  "solver_vars n =
     solver0\<lparr>nVars := n, nVarsOuter := n,
             assigns := replicate n l_Undef,
             varData := replicate n \<lparr>removed = none, is_bva = False\<rparr>,
             watches := replicate (2 * n) [],
             interToOuterMain := [0..<n], outerToInterMain := [0..<n],
             outer_to_with_bva_map := [0..<n],
             assumptionsSet := replicate n False,
             model := replicate n l_Undef\<rparr>"

definition ext0 :: "unit Ext" where
  "ext0 = \<lparr>ext_call = (\<lambda>c s. s),
           ext_try = (\<lambda>c s. Inr s),
           ext_bool = (\<lambda>c s. (True, s)),
           Searcher_solve = (\<lambda>n i s. (l_Undef, s)),
           load_state_and_solution = (\<lambda>s. (l_Undef, s)),
           implCache_clean_set = (\<lambda>s. (True, False, s)),
           cpuTime = (\<lambda>s. 0),
           getAnythingHasBeenBlocked = (\<lambda>s. False),
           get_lit_replaced_with_outer = (\<lambda>s l. l),
           get_vars_replacing_others = (\<lambda>s. []),
           get_num_free_vars = (\<lambda>s. nVarsOuter s - length (trail s)),
           implCache_mem_used = (\<lambda>s. 0),
           smudged_list_empty = (\<lambda>s. True),
           default_ClauseStats = \<lparr>glue = 1000, which_red_array = 2\<rparr>,
           USE_GAUSS = False\<rparr>"

text \<open>Collaborators whose occurrence simplifier refutes the formula.\<close>

definition ext_occ_refutes :: "unit Ext" where
  "ext_occ_refutes =
     ext0\<lparr>ext_call := (\<lambda>c s. case c of OccSimplifier_simplify startup toks \<Rightarrow> s\<lparr>ok := False\<rparr>
                                      | _ \<Rightarrow> s)\<rparr>"

definition solver_occ :: "unit Solver" where
  "solver_occ = solver_vars 2\<lparr>conf := conf0\<lparr>perform_occur_based_simp := True\<rparr>,
                              has_occsimplifier := True\<rparr>"


text \<open>
  A solver with four variables, the long clause \<open>x0 \<or> x2 \<or> x3\<close>, the binary clause
  \<open>x0 \<or> \<not>x2\<close> and the model \<open>x0, x1, x2, \<not>x3\<close>.
\<close>

definition solver_minimize :: "unit Solver" where
  "solver_minimize =
     (solver_vars 4)\<lparr>
        cl_alloc := [\<lparr>cl_lits = [Lit 0 False, Lit 2 False, Lit 3 False], cl_red = False,
                      cl_stats = default_ClauseStats ext0, cl_strengthened = False\<rparr>],
        longIrredCls := [0],
        watches := [[Bin (Lit 2 True) False, Long 0 (Lit 3 False)], [], [], [],
                    [Long 0 (Lit 3 False)], [Bin (Lit 0 False) False], [], []],
        model := [l_True, l_True, l_True, l_False]\<rparr>"

section \<open>Theorems\<close>

subsection \<open>The refuted state\<close>

text \<open>
  C3.  Once \<open>ok\<close> is false, \<open>add_clause_outer\<close> returns false and leaves the state as it
  is, whatever the clause; so does the guard of \<open>addClauseHelper\<close>, through which
  \<open>addClause\<close> returns false with the state unchanged as soon as it has passed its test for
  blocked clauses.
\<close>

theorem refuted_state_is_sticky:
  "\<not> ok s \<Longrightarrow>
     add_clause_outer ext lits red s = Inr (False, s)
   \<and> addClauseHelper ext lits s = Inr (False, lits, s)
   \<and> addClause ext lits red s =
       (if perform_occur_based_simp (conf s) \<and> getAnythingHasBeenBlocked ext s then Inl Fatal
        else Inr (False, s))"
  by (simp add: add_clause_outer_def addClauseHelper_def addClause_def)

theorem refuted_state_is_sticky_witness:
  "\<not> ok (solver0\<lparr>ok := False\<rparr>)
   \<and> add_clause_outer ext0 [Lit 0 False] False (solver0\<lparr>ok := False\<rparr>)
       = Inr (False, solver0\<lparr>ok := False\<rparr>)
   \<and> addClauseHelper ext0 [Lit 0 False] (solver0\<lparr>ok := False\<rparr>)
       = Inr (False, [Lit 0 False], solver0\<lparr>ok := False\<rparr>)
   \<and> addClause ext0 [Lit 0 False] False (solver0\<lparr>ok := False\<rparr>)
       = Inr (False, solver0\<lparr>ok := False\<rparr>)"
  using refuted_state_is_sticky [of "solver0\<lparr>ok := False\<rparr>" ext0 "[Lit 0 False]" False]
  by (simp add: solver0_def conf0_def ext0_def)

subsection \<open>Clause length\<close>

lemma addClauseHelper_loop_not_TooLong:
  "addClauseHelper_loop ext acc ps s \<noteq> Inl TooLongClauseError"
  by (induction ps arbitrary: acc s) (auto simp: Let_def)

lemma clean_scan_not_TooLong:
  "clean_scan red p acc ps s \<noteq> Inl TooLongClauseError"
  by (induction ps arbitrary: p acc) auto

lemma add_clause_int_not_TooLong:
  "add_clause_int ext lits red stats al wfin ad df s \<noteq> Inl TooLongClauseError"
  using clean_scan_not_TooLong[of red lit_Undef "[]" "sort_lits lits" s]
  by (auto simp: add_clause_int_def sort_and_clean_clause_def Let_def
           split: sum.splits option.splits prod.splits)

lemma addClauseHelper_TooLong_iff:
  "addClauseHelper ext ps s = Inl TooLongClauseError \<longleftrightarrow>
     ok s \<and> decisionLevel s = 0 \<and> qhead s = length (trail s) \<and> length ps > 2 ^ 28"
  using addClauseHelper_loop_not_TooLong[of ext "[]" ps s]
  by (auto simp: addClauseHelper_def Let_def split: sum.splits prod.splits)

lemma addClause_TooLong_iff:
  "addClause ext lits red s = Inl TooLongClauseError \<longleftrightarrow>
     \<not> (perform_occur_based_simp (conf s) \<and> getAnythingHasBeenBlocked ext s)
     \<and> addClauseHelper ext lits s = Inl TooLongClauseError"
  by (auto simp: addClause_def Let_def add_clause_int_not_TooLong
           split: sum.splits prod.splits bool.splits)

text \<open>
  The outer API raises \<open>TooLongClauseError\<close> exactly for a clause of more than \<open>2 ^ 28\<close>
  literals (on a solver that is not refuted, at level 0, with declared variables and
  nothing blocked).
\<close>

lemma add_clause_outer_TooLong_iff:
  "add_clause_outer ext lits red s = Inl TooLongClauseError \<longleftrightarrow>
     ok s \<and> check_too_large_variable_number lits s
     \<and> \<not> (perform_occur_based_simp (conf s) \<and> getAnythingHasBeenBlocked ext s)
     \<and> decisionLevel s = 0 \<and> qhead s = length (trail s) \<and> length lits > 2 ^ 28"
  by (auto simp: add_clause_outer_def addClause_TooLong_iff addClauseHelper_TooLong_iff
        back_number_from_outside_to_outer_def)

text \<open>
  The XOR path tests the cleaned literals with \<open>>=\<close>: \<open>2 ^ 28\<close> of them raise the error.
\<close>

lemma add_xor_clause_inter_TooLong:
  assumes "ok s" "decisionLevel s = 0" "attach \<longrightarrow> qhead s = length (trail s)"
    and "xor_clean_scan lit_Undef []
           (foldl (\<lambda>r lit. if sign lit then (r \<noteq> True) else r) rhs lits)
           (sort_lits (map (\<lambda>lit. if sign lit then lit_xor lit True else lit) lits)) s
         = Inr (ps, rhs')"
    and "length ps \<ge> 2 ^ 28"
  shows "add_xor_clause_inter ext lits rhs attach addDrat s = Inl TooLongClauseError"
  using assms by (auto simp: add_xor_clause_inter_def Let_def)

text \<open>
  C6.  A clause of exactly \<open>2 ^ 28\<close> literals is not refused: neither \<open>addClauseHelper\<close> nor
  the outer API raises \<open>TooLongClauseError\<close> for it, in any state and for any collaborators.
\<close>

theorem clause_of_2p28_literals_not_too_long:
  "addClauseHelper ext (replicate (2 ^ 28) l) s \<noteq> Inl TooLongClauseError
   \<and> add_clause_outer ext (replicate (2 ^ 28) l) red s \<noteq> Inl TooLongClauseError"
  by (simp add: add_clause_outer_TooLong_iff addClauseHelper_TooLong_iff)

subsection \<open>Retention tiers\<close>

lemma addClause_tier_eq:
  "addClause_tier cf st =
     (if glue st \<le> glue_put_lev0_if_below_or_eq cf then 0
      else if glue st \<le> glue_put_lev1_if_below_or_eq cf then 1 else 2)"
  by (auto simp: addClause_tier_def)

lemma clean_scan_Some_state:
  "clean_scan red p acc ps s = Inr (Some r, s') \<Longrightarrow> s' = s"
  by (induction ps arbitrary: p acc) (auto split: if_splits)

text \<open>
  What \<open>add_clause_int\<close> does with a clause that is still longer than two literals after
  cleaning: it allocates the clause at the end of the arena and touches nothing but the
  arena, the watch lists, the literal counters and the proof log.
\<close>

lemma add_clause_int_long:
  assumes "ok s" "decisionLevel s = 0" "attach_long \<longrightarrow> qhead s = length (trail s)"
    and "sort_and_clean_clause lits red s = Inr (Some ps, s)"
    and "2 < length ps"
  shows "\<exists>S. add_clause_int ext lits red stats attach_long wfin addDrat df s
               = Inr (Some (length (cl_alloc s)), (if wfin then Some ps else None), S)
           \<and> cl_alloc S = cl_alloc s @ [\<lparr>cl_lits = ps, cl_red = red, cl_stats = stats,
                                         cl_strengthened = False\<rparr>]
           \<and> ok S \<and> decisionLevel S = 0 \<and> qhead S = qhead s \<and> trail S = trail s
           \<and> assigns S = assigns s \<and> varData S = varData s \<and> nVars S = nVars s
           \<and> nVarsOuter S = nVarsOuter s
           \<and> longIrredCls S = longIrredCls s \<and> longRedCls S = longRedCls s
           \<and> conf S = conf s \<and> xorclauses S = xorclauses s
           \<and> undef_must_set_vars S = undef_must_set_vars s"
proof -
  from assms(5) have "ps \<noteq> []" "length ps \<noteq> Suc 0" "length ps \<noteq> 2" by auto
  with assms show ?thesis
    by (simp add: add_clause_int_def Let_def add_clause_int_drat_def drat_write_def
                  attachClause_def PropEngine_attachClause_def decisionLevel_def)
qed

lemma add_clause_int_Some_cases:
  assumes "add_clause_int ext lits red stats attach_long wfin addDrat df s = Inr (Some off, fl, s2)"
  shows "ok s \<and> decisionLevel s = 0 \<and> (attach_long \<longrightarrow> qhead s = length (trail s))
         \<and> (\<exists>ps. sort_and_clean_clause lits red s = Inr (Some ps, s) \<and> 2 < length ps)"
proof -
  from assms have pre: "ok s" "decisionLevel s = 0" "attach_long \<longrightarrow> qhead s = length (trail s)"
    by (simp_all add: add_clause_int_def split: if_splits)
  from assms pre obtain ps s1 where
    scan: "sort_and_clean_clause lits red s = Inr (Some ps, s1)"
    by (auto simp: add_clause_int_def split: sum.splits option.splits)
  have s1: "s1 = s"
    using scan clean_scan_Some_state by (simp add: sort_and_clean_clause_def)
  have "2 < length ps"
  proof (rule ccontr)
    assume "\<not> 2 < length ps"
    then consider "length ps = 0" | "length ps = 1" | "length ps = 2" by linarith
    then show False
      using assms scan pre
      by cases (simp_all add: add_clause_int_def Let_def split: prod.splits if_splits)
  qed
  with pre scan s1 show ?thesis by auto
qed

lemma add_clause_int_new_clause:
  assumes "add_clause_int ext lits red stats attach_long wfin addDrat df s = Inr (Some off, fl, s2)"
  shows "off < length (cl_alloc s2) \<and> cl_red (cl_alloc s2 ! off) = red
         \<and> cl_stats (cl_alloc s2 ! off) = stats \<and> conf s2 = conf s
         \<and> longRedCls s2 = longRedCls s"
proof -
  from add_clause_int_Some_cases[OF assms] obtain ps where
    pre: "ok s" "decisionLevel s = 0" "attach_long \<longrightarrow> qhead s = length (trail s)"
    and scan: "sort_and_clean_clause lits red s = Inr (Some ps, s)" and len: "2 < length ps"
    by auto
  from add_clause_int_long[OF pre scan len, of ext stats wfin addDrat df] assms
  show ?thesis by (auto simp: nth_append)
qed

text \<open>
  C5.  When \<open>addClause\<close> admits a redundant clause as a long clause (the admission from the
  outer numbering succeeds and \<open>add_clause_int\<close> allocates the clause at \<open>off\<close>), the tier
  written to the clause is 0 when its glue is at most \<open>glue_put_lev0_if_below_or_eq\<close>,
  otherwise 1 when its glue is at most \<open>glue_put_lev1_if_below_or_eq\<close>, otherwise 2, and
  the clause is filed in the list of redundant clauses of that tier.
\<close>

theorem addClause_retention_tier:
  assumes "\<not> (perform_occur_based_simp (conf s) \<and> getAnythingHasBeenBlocked ext s)"
    and "addClauseHelper ext lits s = Inr (True, ps, s1)"
    and "add_clause_int ext (sort_lits ps) True (default_ClauseStats ext) True True False
           lit_Undef s1 = Inr (Some off, fl, s2)"
    and "length (longRedCls s2) = 3"
  shows "\<exists>s'. addClause ext lits True s = Inr (ok s', s')
           \<and> cl_red (cl_alloc s' ! off)
           \<and> which_red_array (cl_stats (cl_alloc s' ! off)) =
               (if glue (cl_stats (cl_alloc s' ! off)) \<le> glue_put_lev0_if_below_or_eq (conf s')
                then 0
                else if glue (cl_stats (cl_alloc s' ! off)) \<le> glue_put_lev1_if_below_or_eq (conf s')
                then 1 else 2)
           \<and> off \<in> set (longRedCls s' ! which_red_array (cl_stats (cl_alloc s' ! off)))"
proof -
  from add_clause_int_new_clause[OF assms(3)] have
    off: "off < length (cl_alloc s2)" and red: "cl_red (cl_alloc s2 ! off)" by auto
  have tier: "addClause_tier cf st < 3" for cf st by (simp add: addClause_tier_def)
  show ?thesis
    using assms off red tier[of "conf s2" "cl_stats (cl_alloc s2 ! off)"]
    by (simp add: addClause_def Let_def addClause_store_def addClause_drat_def drat_write_def
                  addClause_tier_eq)
qed

lemma solver_vars_simps:
  "ok (solver_vars n)" "decisionLevel (solver_vars n) = 0"
  "qhead (solver_vars n) = length (trail (solver_vars n))"
  "conf (solver_vars n) = conf0" "cl_alloc (solver_vars n) = []"
  "longRedCls (solver_vars n) = [[], [], []]"
  by (simp_all add: solver_vars_def solver0_def decisionLevel_def)

theorem addClause_retention_tier_witness:
  "\<exists>s'. addClause ext0 [Lit 0 False, Lit 2 False, Lit 3 False] True (solver_vars 4) = Inr (ok s', s')
      \<and> cl_red (cl_alloc s' ! 0)
      \<and> which_red_array (cl_stats (cl_alloc s' ! 0)) =
          (if glue (cl_stats (cl_alloc s' ! 0)) \<le> glue_put_lev0_if_below_or_eq (conf s') then 0
           else if glue (cl_stats (cl_alloc s' ! 0)) \<le> glue_put_lev1_if_below_or_eq (conf s')
           then 1 else 2)
      \<and> 0 \<in> set (longRedCls s' ! which_red_array (cl_stats (cl_alloc s' ! 0)))"
proof -
  let ?lits = "[Lit 0 False, Lit 2 False, Lit 3 False]"
  have h1: "\<not> (perform_occur_based_simp (conf (solver_vars 4))
               \<and> getAnythingHasBeenBlocked ext0 (solver_vars 4))"
    by (simp add: solver_vars_simps conf0_def)
  have h2: "addClauseHelper ext0 ?lits (solver_vars 4) = Inr (True, ?lits, solver_vars 4)"
    by (simp add: addClauseHelper_def solver_vars_def solver0_def ext0_def conf0_def
          decisionLevel_def Let_def map_outer_to_inter_lit_def map_outer_to_inter_def)
  have srt: "sort_lits ?lits = ?lits" by (simp add: sort_lits_def toInt_def)
  have cln: "sort_and_clean_clause ?lits True (solver_vars 4) = Inr (Some ?lits, solver_vars 4)"
    by (simp add: sort_and_clean_clause_def sort_lits_def toInt_def value_lit_def lit_neg_def
          lit_xor_def lit_Undef_def var_Undef_def solver_vars_def solver0_def)
  from add_clause_int_long[of "solver_vars 4" True ?lits True ?lits ext0
        "default_ClauseStats ext0" True False lit_Undef] cln
  obtain S where
    h3: "add_clause_int ext0 (sort_lits ?lits) True (default_ClauseStats ext0) True True False
           lit_Undef (solver_vars 4) = Inr (Some 0, Some ?lits, S)"
    and h4: "length (longRedCls S) = 3"
    by (auto simp: solver_vars_simps srt)
  from addClause_retention_tier[OF h1 h2 h3 h4] show ?thesis .
qed

subsection \<open>The conflict budget of one round\<close>







subsection \<open>The budgets after a solve call\<close>

lemma solve_end_budgets:
  "solve_end ext status s = Inr (status', s')
     \<Longrightarrow> status' = status \<and> maxConfl (conf s') = LONG_MAX \<and> maxTime (conf s') = DBL_MAX"
  by (auto simp: solve_end_def Let_def split: sum.splits if_splits)

text \<open>
  C10.  Whenever \<open>solve\<close> returns, with whatever verdict, the conflict budget and the time
  budget of the configuration are the largest \<open>long\<close> and the largest \<open>double\<close>: the budgets
  the caller had set are gone.
\<close>

theorem solve_resets_budgets:
  "solve ext s = Some (Inr (status, s'))
     \<Longrightarrow> maxConfl (conf s') = LONG_MAX \<and> maxTime (conf s') = DBL_MAX"
  by (auto simp: solve_def Let_def dest: solve_end_budgets
           split: if_splits option.splits sum.splits prod.splits)

theorem solve_resets_budgets_witness:
  "solve ext0 (solver0\<lparr>ok := False\<rparr>)
     = Some (Inr (l_False, solver0\<lparr>ok := False, num_solve_calls := 1,
                                   conf := conf0\<lparr>maxConfl := LONG_MAX, maxTime := DBL_MAX\<rparr>\<rparr>))
   \<and> maxConfl (conf (solver0\<lparr>ok := False, num_solve_calls := 1,
                             conf := conf0\<lparr>maxConfl := LONG_MAX, maxTime := DBL_MAX\<rparr>\<rparr>))
       = LONG_MAX
   \<and> maxTime (conf (solver0\<lparr>ok := False, num_solve_calls := 1,
                            conf := conf0\<lparr>maxConfl := LONG_MAX, maxTime := DBL_MAX\<rparr>\<rparr>))
       = DBL_MAX"
proof -
  have run: "solve ext0 (solver0\<lparr>ok := False\<rparr>)
     = Some (Inr (l_False, solver0\<lparr>ok := False, num_solve_calls := 1,
                                   conf := conf0\<lparr>maxConfl := LONG_MAX, maxTime := DBL_MAX\<rparr>\<rparr>))"
    by (simp add: solve_def solve_body_def solve_end_def check_config_parameters_def
          solver0_def conf0_def ext0_def Let_def)
  from solve_resets_budgets[OF run] run show ?thesis by simp
qed

subsection \<open>The budget test of the scheduler\<close>

lemma exec_tokens_limit:
  "strategy_limit_reached ext s \<Longrightarrow> exec_tokens ext startup occ toks s = Some (Inr (ok s, s))"
  by (cases toks) simp_all

text \<open>
  C7.  When the budget test holds (the conflicts have reached \<open>maxConfl\<close>, the CPU time
  exceeds \<open>maxTime\<close>, the interrupt flag is set, no variable is left, or \<open>ok\<close> is false),
  the scheduler returns \<open>ok\<close> with the state as it is, whatever tokens are left to read and
  whatever occurrence tokens are buffered: no token is executed.  The same holds for the
  whole strategy string, and when the test comes to hold through the flush of the buffered
  occurrence tokens the scheduler returns right after the flush, before it executes the
  token it has read.
\<close>

theorem scheduler_stops_at_budget:
  "(strategy_limit_reached ext s \<longrightarrow>
      exec_tokens ext startup occ toks s = Some (Inr (ok s, s))
      \<and> execute_inprocess_strategy ext startup strategy s = Some (Inr (ok s, s)))
   \<and> (\<not> strategy_limit_reached ext s \<and> smudged_list_empty ext s
        \<and> occ \<noteq> [] \<and> take 3 (map tolower_char (trim tok)) \<noteq> ''occ''
        \<and> strategy_limit_reached ext (flush_occ_tokens ext startup occ s) \<longrightarrow>
      exec_tokens ext startup occ (tok # rest) s =
        Some (Inr (ok (flush_occ_tokens ext startup occ s), flush_occ_tokens ext startup occ s)))"
  by (simp add: exec_tokens_limit execute_inprocess_strategy_def Let_def)

lemma tok_probe: "map tolower_char (trim ''Probe '') = ''probe''"
  by (simp add: trim_def tolower_char_def is_space_def)

theorem scheduler_stops_at_budget_witness:
  "strategy_limit_reached ext0 solver0
   \<and> exec_tokens ext0 False ''occ-bve, '' [''probe'', ''renumber''] solver0
       = Some (Inr (True, solver0))
   \<and> execute_inprocess_strategy ext0 False ''sub-impl, probe'' solver0 = Some (Inr (True, solver0))
   \<and> \<not> strategy_limit_reached ext_occ_refutes solver_occ
   \<and> exec_tokens ext_occ_refutes False ''occ-bve, '' [''Probe '', ''renumber''] solver_occ
       = Some (Inr (False, solver_occ\<lparr>ok := False\<rparr>))"
proof -
  have l0: "strategy_limit_reached ext0 solver0"
    by (simp add: strategy_limit_reached_def solver0_def)
  have l1: "\<not> strategy_limit_reached ext_occ_refutes solver_occ"
    by (simp add: strategy_limit_reached_def solver_occ_def solver_vars_def solver0_def
          conf0_def ext_occ_refutes_def ext0_def must_interrupt_asap_def)
  have fl: "flush_occ_tokens ext_occ_refutes False ''occ-bve, '' solver_occ
              = solver_occ\<lparr>ok := False\<rparr>"
    by (simp add: flush_occ_tokens_def solver_occ_def solver_vars_def solver0_def conf0_def
          ext_occ_refutes_def ext0_def Let_def)
  have l2: "strategy_limit_reached ext_occ_refutes (solver_occ\<lparr>ok := False\<rparr>)"
    by (simp add: strategy_limit_reached_def)
  have sm: "smudged_list_empty ext_occ_refutes solver_occ"
    by (simp add: ext_occ_refutes_def ext0_def)
  from scheduler_stops_at_budget[of ext0 solver0 False "''occ-bve, ''"
         "[''probe'', ''renumber'']" "''sub-impl, probe''" "''probe''" "[]"]
       scheduler_stops_at_budget[of ext_occ_refutes solver_occ False "''occ-bve, ''"
         "[]" "[]" "''Probe ''" "[''renumber'']"]
       l0 l1 l2 fl sm tok_probe
  show ?thesis by (simp add: solver0_def)
qed

subsection \<open>The maps of the renumberer\<close>

lemma calc_loop_useless_step:
  "calc_loop_useless (ou, iu, k) v = (ou[v := k], iu[k := v], Suc k)"
  by (simp add: calc_loop_useless_def)

lemma calc_loop_useful_fold:
  "foldl (calc_loop_useful s) (ou, iu, k, us, n) xs =
     (case foldl calc_loop_useless (ou, iu, k) (filter (\<lambda>i. \<not> var_useless s i) xs) of
        (o', i', k') \<Rightarrow> (o', i', k', us @ filter (var_useless s) xs,
                          n + length (filter (\<lambda>i. \<not> var_useless s i) xs)))"
  by (induction xs arbitrary: ou iu k us n)
     (auto simp: calc_loop_useful_def calc_loop_useless_step split: prod.splits)

lemma calc_loop_identity_fold:
  "foldl calc_loop_identity (ou, iu) [k..<k + n] =
     (case foldl calc_loop_useless (ou, iu, k) [k..<k + n] of (o', i', k') \<Rightarrow> (o', i'))"
proof (induction n arbitrary: ou iu k)
  case 0
  then show ?case by simp
next
  case (Suc n)
  have "[k..<k + Suc n] = k # [Suc k..<Suc k + n]" by (simp add: upt_conv_Cons)
  with Suc[of "ou[k := k]" "iu[k := k]" "Suc k"] show ?case
    by (simp add: calc_loop_identity_def calc_loop_useless_step)
qed

text \<open>
  What numbering the variables \<open>vs\<close> one after the other from position \<open>k\<close> does to the two
  maps.
\<close>

lemma calc_loop_useless_fold:
  assumes "foldl calc_loop_useless (ou, iu, k) vs = (o', i', k')"
  shows "k' = k + length vs \<and> length o' = length ou \<and> length i' = length iu
         \<and> (\<forall>j < k. i' ! j = iu ! j)
         \<and> (k + length vs \<le> length iu \<longrightarrow> (\<forall>j < length vs. i' ! (k + j) = vs ! j))
         \<and> (distinct vs \<and> (\<forall>v \<in> set vs. v < length ou)
              \<longrightarrow> (\<forall>j < length vs. o' ! (vs ! j) = k + j))
         \<and> (\<forall>v. v \<notin> set vs \<longrightarrow> o' ! v = ou ! v)"
  using assms
proof (induction vs arbitrary: ou iu k)
  case Nil
  then show ?case by simp
next
  case (Cons v vs)
  from Cons.prems have rest:
    "foldl calc_loop_useless (ou[v := k], iu[k := v], Suc k) vs = (o', i', k')"
    by (simp add: calc_loop_useless_step)
  note IH = Cons.IH[OF rest]
  have a: "k' = k + length (v # vs)" "length o' = length ou" "length i' = length iu"
    using IH by auto
  have b: "\<forall>j < k. i' ! j = iu ! j"
    using IH by auto
  have c: "\<forall>j < length (v # vs). i' ! (k + j) = (v # vs) ! j" if le: "k + length (v # vs) \<le> length iu"
  proof (intro allI impI)
    fix j assume j: "j < length (v # vs)"
    show "i' ! (k + j) = (v # vs) ! j"
    proof (cases j)
      case 0
      from IH have "i' ! k = (iu[k := v]) ! k" by auto
      with le 0 show ?thesis by simp
    next
      case (Suc m)
      with j le IH have "i' ! (Suc k + m) = vs ! m" by auto
      with Suc show ?thesis by simp
    qed
  qed
  have d: "\<forall>j < length (v # vs). o' ! ((v # vs) ! j) = k + j"
    if dv: "distinct (v # vs) \<and> (\<forall>w \<in> set (v # vs). w < length ou)"
  proof (intro allI impI)
    fix j assume j: "j < length (v # vs)"
    show "o' ! ((v # vs) ! j) = k + j"
    proof (cases j)
      case 0
      from dv have "v \<notin> set vs" by simp
      with IH have "o' ! v = (ou[v := k]) ! v" by blast
      with dv 0 show ?thesis by simp
    next
      case (Suc m)
      with j dv IH have "o' ! (vs ! m) = Suc k + m" by auto
      with Suc show ?thesis by simp
    qed
  qed
  have e: "\<forall>w. w \<notin> set (v # vs) \<longrightarrow> o' ! w = ou ! w"
  proof (intro allI impI)
    fix w assume w: "w \<notin> set (v # vs)"
    with IH have "o' ! w = (ou[v := k]) ! w" by auto
    with w show "o' ! w = ou ! w" by simp
  qed
  from a b c d e show ?case by blast
qed

lemma calculate_maps_fold:
  assumes "nVars s \<le> nVarsOuter s"
  shows "\<exists>o3 i3 k3.
           foldl calc_loop_useless (ou, iu, 0)
             (filter (\<lambda>i. \<not> var_useless s i) [0..<nVars s]
              @ filter (var_useless s) [0..<nVars s] @ [nVars s..<nVarsOuter s]) = (o3, i3, k3)
           \<and> calculate_interToOuter_and_outerToInter s ou iu
               = Inr (o3, i3, length (filter (\<lambda>i. \<not> var_useless s i) [0..<nVars s]))"
proof -
  let ?A = "filter (\<lambda>i. \<not> var_useless s i) [0..<nVars s]"
  let ?U = "filter (var_useless s) [0..<nVars s]"
  obtain o1 i1 k1 where f1: "foldl calc_loop_useless (ou, iu, 0) ?A = (o1, i1, k1)"
    by (cases "foldl calc_loop_useless (ou, iu, 0) ?A") auto
  obtain o2 i2 k2 where f2: "foldl calc_loop_useless (o1, i1, k1) ?U = (o2, i2, k2)"
    by (cases "foldl calc_loop_useless (o1, i1, k1) ?U") auto
  obtain o3 i3 k3 where
    f3: "foldl calc_loop_useless (o2, i2, k2) [nVars s..<nVarsOuter s] = (o3, i3, k3)"
    by (cases "foldl calc_loop_useless (o2, i2, k2) [nVars s..<nVarsOuter s]") auto
  have k1: "k1 = length ?A" using calc_loop_useless_fold[OF f1] by simp
  have "k2 = length ?A + length ?U" using calc_loop_useless_fold[OF f2] k1 by simp
  also have "\<dots> = nVars s"
    using sum_length_filter_compl[of "var_useless s" "[0..<nVars s]"] by simp
  finally have k2: "k2 = nVars s" .
  from assms obtain n where n: "nVarsOuter s = nVars s + n"
    using le_Suc_ex by blast
  have id: "foldl calc_loop_identity (o2, i2) [nVars s..<nVarsOuter s] = (o3, i3)"
    using calc_loop_identity_fold[of o2 i2 "nVars s" n] f3 k2 n by simp
  have first: "foldl (calc_loop_useful s) (ou, iu, 0, [], 0) [0..<nVars s]
                 = (o1, i1, k1, ?U, length ?A)"
    using f1 by (simp add: calc_loop_useful_fold)
  have whole: "foldl calc_loop_useless (ou, iu, 0)
                 (?A @ ?U @ [nVars s..<nVarsOuter s]) = (o3, i3, k3)"
    using f1 f2 f3 by simp
  have "calculate_interToOuter_and_outerToInter s ou iu = Inr (o3, i3, length ?A)"
    unfolding calculate_interToOuter_and_outerToInter_def
    using first f2 k2 id by simp
  with whole show ?thesis by blast
qed

text \<open>The maps that \<open>calculate_interToOuter_and_outerToInter\<close> returns.\<close>

lemma renumbering_puts_active_first_aux:
  assumes "nVars s \<le> nVarsOuter s" "length ou = nVarsOuter s" "length iu = nVarsOuter s"
  shows "\<exists>outerToInter interToOuter.
      calculate_interToOuter_and_outerToInter s ou iu
        = Inr (outerToInter, interToOuter,
               length (filter (\<lambda>i. \<not> var_useless s i) [0..<nVars s]))
      \<and> interToOuter = filter (\<lambda>i. \<not> var_useless s i) [0..<nVars s]
                         @ filter (var_useless s) [0..<nVars s] @ [nVars s..<nVarsOuter s]
      \<and> length outerToInter = nVarsOuter s
      \<and> (\<forall>k < nVarsOuter s. outerToInter ! (interToOuter ! k) = k)
      \<and> (\<forall>v < nVarsOuter s. interToOuter ! (outerToInter ! v) = v)
      \<and> (\<forall>v < nVars s. (\<not> var_useless s v)
             = (outerToInter ! v < length (filter (\<lambda>i. \<not> var_useless s i) [0..<nVars s])))
      \<and> (\<forall>u v. u < v \<and> v < nVars s \<and> \<not> var_useless s u \<and> \<not> var_useless s v
             \<longrightarrow> outerToInter ! u < outerToInter ! v)"
proof -
  let ?A = "filter (\<lambda>i. \<not> var_useless s i) [0..<nVars s]"
  let ?U = "filter (var_useless s) [0..<nVars s]"
  let ?P = "?A @ ?U @ [nVars s..<nVarsOuter s]"
  from calculate_maps_fold[OF assms(1), of ou iu] obtain o3 i3 k3 where
    fold: "foldl calc_loop_useless (ou, iu, 0) ?P = (o3, i3, k3)"
    and res: "calculate_interToOuter_and_outerToInter s ou iu = Inr (o3, i3, length ?A)"
    by blast
  have lenAU: "length ?A + length ?U = nVars s"
    using sum_length_filter_compl[of "var_useless s" "[0..<nVars s]"] by simp
  have lenP: "length ?P = nVarsOuter s" using lenAU assms(1) by simp
  have setP: "set ?P = {0..<nVarsOuter s}" using assms(1) by auto
  have distP: "distinct ?P" by auto
  note F = calc_loop_useless_fold[OF fold]
  have len_o: "length o3 = nVarsOuter s" and len_i: "length i3 = nVarsOuter s"
    using F assms by auto
  have i_nth: "\<forall>j < length ?P. i3 ! j = ?P ! j"
    using F lenP assms(3) by simp
  have o_nth: "\<forall>j < length ?P. o3 ! (?P ! j) = j"
  proof -
    have "\<forall>v \<in> set ?P. v < length ou" using setP assms(2) by auto
    with F distP show ?thesis by simp
  qed
  have i_eq: "i3 = ?P"
    using i_nth len_i lenP by (intro nth_equalityI) auto
  have inv1: "\<forall>k < nVarsOuter s. o3 ! (i3 ! k) = k"
    using o_nth i_eq lenP by simp
  have inv2: "\<forall>v < nVarsOuter s. i3 ! (o3 ! v) = v"
  proof (intro allI impI)
    fix v assume "v < nVarsOuter s"
    then have "v \<in> set ?P" using setP by simp
    then obtain j where j: "j < length ?P" "?P ! j = v"
      unfolding in_set_conv_nth by blast
    with o_nth have "o3 ! v = j" by auto
    with j i_eq show "i3 ! (o3 ! v) = v" by simp
  qed
  have active: "o3 ! v < length ?A" if "v < nVars s" "\<not> var_useless s v" for v
  proof -
    from that have "v \<in> set ?A" by simp
    then obtain j where j: "j < length ?A" "?A ! j = v"
      unfolding in_set_conv_nth by blast
    then have "?P ! j = v" by (simp add: nth_append)
    moreover have "j < length ?P" using j by simp
    ultimately have "o3 ! v = j" using o_nth by blast
    with j show ?thesis by simp
  qed
  have inactive: "\<not> o3 ! v < length ?A" if "v < nVars s" "var_useless s v" for v
  proof -
    from that have "v \<in> set ?U" by simp
    then obtain m where m: "m < length ?U" "?U ! m = v"
      unfolding in_set_conv_nth by blast
    then have "?P ! (length ?A + m) = v" by (simp add: nth_append)
    moreover have "length ?A + m < length ?P" using m by simp
    ultimately have "o3 ! v = length ?A + m" using o_nth by blast
    then show ?thesis by simp
  qed
  have order: "o3 ! u < o3 ! v"
    if "u < v" "v < nVars s" "\<not> var_useless s u" "\<not> var_useless s v" for u v
  proof -
    from that have "u \<in> set ?A" "v \<in> set ?A" by simp_all
    then obtain j j' where j: "j < length ?A" "?A ! j = u" "j' < length ?A" "?A ! j' = v"
      unfolding in_set_conv_nth by blast
    have Pj: "?P ! j = u" "?P ! j' = v" using j by (simp_all add: nth_append)
    have "j < length ?P" "j' < length ?P" using j by simp_all
    with Pj o_nth have oj: "o3 ! u = j" "o3 ! v = j'" by blast+
    have srt: "sorted ?A" by (simp add: sorted_wrt_filter)
    have "j < j'"
    proof (rule ccontr)
      assume "\<not> j < j'"
      then have "j' \<le> j" by simp
      from sorted_nth_mono[OF srt this j(1)] have "?A ! j' \<le> ?A ! j" .
      with j that show False by simp
    qed
    with oj show ?thesis by simp
  qed
  have act: "\<forall>v < nVars s. (\<not> var_useless s v) = (o3 ! v < length ?A)"
    using active inactive by blast
  have ord: "\<forall>u v. u < v \<and> v < nVars s \<and> \<not> var_useless s u \<and> \<not> var_useless s v
             \<longrightarrow> o3 ! u < o3 ! v"
    using order by blast
  show ?thesis
    apply (rule exI[of _ o3])
    apply (rule exI[of _ i3])
    apply (intro conjI)
          apply (rule res)
         apply (rule i_eq)
        apply (rule len_o)
       apply (rule inv1)
      apply (rule inv2)
     apply (rule act)
    apply (rule ord)
    done
qed



text \<open>
  \<open>test_renumbering\<close> accepts a state exactly when no useful variable below \<open>nVars\<close> comes
  after a useless one.
\<close>

lemma test_renumbering_fold:
  "foldl (test_renumbering_step s) (u, p) xs =
     (u \<or> (\<exists>i \<in> set xs. var_useless s i),
      p \<or> \<not> ((u \<longrightarrow> (\<forall>x \<in> set xs. var_useless s x))
             \<and> sorted_wrt (\<lambda>a b. \<not> (var_useless s a \<and> \<not> var_useless s b)) xs))"
proof (induction xs arbitrary: u p)
  case Nil
  then show ?case by simp
next
  case (Cons i xs)
  have step: "test_renumbering_step s (u, p) i
                = (u \<or> var_useless s i, p \<or> (\<not> var_useless s i \<and> u))"
    by (auto simp: test_renumbering_step_def var_useless_def Let_def)
  show ?case
    unfolding foldl_Cons step Cons.IH by auto
qed

lemma test_renumbering_iff:
  "test_renumbering s \<longleftrightarrow>
     (\<forall>i j. i < j \<and> j < nVars s \<longrightarrow> \<not> (var_useless s i \<and> \<not> var_useless s j))"
proof -
  have "test_renumbering s
          \<longleftrightarrow> sorted_wrt (\<lambda>a b. \<not> (var_useless s a \<and> \<not> var_useless s b)) [0..<nVars s]"
    by (simp add: test_renumbering_def test_renumbering_fold)
  also have "\<dots> \<longleftrightarrow> (\<forall>i j. i < j \<and> j < nVars s
                          \<longrightarrow> \<not> (var_useless s i \<and> \<not> var_useless s j))"
    by (auto simp: sorted_wrt_iff_nth_less)
  finally show ?thesis .
qed

text \<open>
  So the test passes in every state whose useful variables are the first \<open>n\<close> ones, as they
  are once the values and the removal tags have been moved along the inter-to-outer map.
\<close>

lemma test_renumbering_dense_prefix:
  "(\<forall>k < nVars s. (\<not> var_useless s k) = (k < n)) \<Longrightarrow> test_renumbering s"
  unfolding test_renumbering_iff
  by (metis (no_types, lifting) order.strict_trans)

lemma test_renumbering_after_renumbering:
  assumes "nVars s \<le> nVarsOuter s" "length ou = nVarsOuter s" "length iu = nVarsOuter s"
    and res: "calculate_interToOuter_and_outerToInter s ou iu
                = Inr (outerToInter, interToOuter, numEffectiveVars)"
    and nv: "nVars s' = nVars s"
    and moved: "\<forall>k < nVars s. assigns s' ! k = assigns s ! (interToOuter ! k)
                             \<and> varData s' ! k = varData s ! (interToOuter ! k)"
  shows "test_renumbering s'"
proof -
  let ?A = "filter (\<lambda>i. \<not> var_useless s i) [0..<nVars s]"
  let ?U = "filter (var_useless s) [0..<nVars s]"
  from renumbering_puts_active_first_aux[OF assms(1-3)] obtain a b where
    ab: "calculate_interToOuter_and_outerToInter s ou iu = Inr (a, b, length ?A)"
    and b: "b = ?A @ ?U @ [nVars s..<nVarsOuter s]"
    by (elim exE conjE)
  from ab res have "b = interToOuter" by simp
  with b have i: "interToOuter = ?A @ ?U @ [nVars s..<nVarsOuter s]" by simp
  have lenAU: "length ?A + length ?U = nVars s"
    using sum_length_filter_compl[of "var_useless s" "[0..<nVars s]"] by simp
  have "(\<not> var_useless s' k) = (k < length ?A)" if k: "k < nVars s'" for k
  proof -
    have eq: "var_useless s' k = var_useless s (interToOuter ! k)"
      using moved k nv by (simp add: var_useless_def)
    show ?thesis
    proof (cases "k < length ?A")
      case True
      then have "interToOuter ! k = ?A ! k" by (simp add: i nth_append)
      with True have "interToOuter ! k \<in> set ?A" using nth_mem[of k ?A] by simp
      then have "\<not> var_useless s (interToOuter ! k)" by simp
      with eq True show ?thesis by simp
    next
      case False
      with k nv lenAU have "k - length ?A < length ?U" by simp
      moreover from this False have "interToOuter ! k = ?U ! (k - length ?A)"
        by (simp add: i nth_append)
      ultimately have "interToOuter ! k \<in> set ?U" using nth_mem[of "k - length ?A" ?U] by simp
      then have "var_useless s (interToOuter ! k)" by simp
      with eq False show ?thesis by simp
    qed
  qed
  then show ?thesis by (intro test_renumbering_dense_prefix[of s' "length ?A"]) simp
qed

subsection \<open>Tautologies\<close>

lemma toInt_inj: "toInt a = toInt b \<longleftrightarrow> a = b"
  by (cases a; cases b) (auto simp: toInt_def split: if_splits; presburger)

lemma toInt_Lit: "toInt (Lit v b) = 2 * v + (if b then 1 else 0)"
  by (simp add: toInt_def)

lemma toInt_less_var: "toInt l < 2 * v \<longleftrightarrow> var l < v"
  by (cases l) (auto simp: toInt_def)

lemma sorted_sort_lits: "sorted (map toInt (sort_lits ps))" "set (sort_lits ps) = set ps"
  by (simp_all add: sort_lits_def)

lemma mark_undef_must_set_only:
  "(mark_undef_must_set v s)\<lparr>undef_must_set_vars := undef_must_set_vars s\<rparr> = s"
  "undef_must_set_vars (mark_undef_must_set v s) ! map_inter_to_outer s v = True"
  by (simp_all add: mark_undef_must_set_def Let_def)

text \<open>
  The scan over sorted literals, once it is known to reach the pair \<open>v\<close>, \<open>\<not>v\<close> of an
  unassigned variable before anything ends it: it stops at \<open>\<not>v\<close> with the previously
  retained literal \<open>v\<close>.
\<close>

lemma clean_scan_tautology:
  assumes "sorted (map toInt xs)" "set xs \<subseteq> set ps"
    and "Lit v True \<in> set xs"
    and "Lit v False \<in> set xs \<or> p = Lit v False"
    and "p = lit_Undef \<or> (p \<in> set ps \<and> (\<forall>x \<in> set xs. toInt p \<le> toInt x))"
    and undef: "assigns s ! v = l_Undef"
    and early: "\<forall>l \<in> set ps. var l < v \<longrightarrow> value_lit s l \<noteq> l_True \<and> lit_neg l \<notin> set ps"
    and range: "\<forall>l \<in> set ps. var l < var_Undef"
    and rem: "\<forall>l \<in> set ps. var l \<le> v \<and> value_lit s l = l_Undef
                \<longrightarrow> removed (varData s ! var l) = none"
  shows "clean_scan red p acc xs s = Inr (None, if red then s else mark_undef_must_set v s)"
  using assms(1-5)
proof (induction xs arbitrary: p acc)
  case Nil
  then show ?case by simp
next
  case (Cons l xs)
  have l_ps: "l \<in> set ps" using Cons.prems(2) by simp
  have v_range: "v < var_Undef" using Cons.prems(2,3) range by force
  have srt: "sorted (map toInt xs)" "\<forall>x \<in> set xs. toInt l \<le> toInt x"
    using Cons.prems(1) by simp_all
  have sub: "set xs \<subseteq> set ps" using Cons.prems(2) by simp
  have p_le: "p \<noteq> lit_Undef \<Longrightarrow> p \<in> set ps \<and> toInt p \<le> toInt l"
    using Cons.prems(5) by auto
  have val_v: "value_lit s (Lit v b) = l_Undef" for b
    by (simp add: value_lit_def undef)
  consider (neg) "l = Lit v True" | (pos) "l = Lit v False"
    | (other) "l \<noteq> Lit v True" "l \<noteq> Lit v False" by blast
  then show ?case
  proof cases
    case neg
    have "p = Lit v False"
    proof (rule ccontr)
      assume np: "p \<noteq> Lit v False"
      with Cons.prems(4) neg have "Lit v False \<in> set xs" by auto
      with srt(2) have "toInt l \<le> toInt (Lit v False)" by blast
      with neg show False by (simp add: toInt_Lit)
    qed
    moreover have "value_lit s l = l_Undef" using neg val_v by simp
    moreover have "l = lit_neg p" using neg \<open>p = Lit v False\<close> by (simp add: lit_neg_def lit_xor_def)
    moreover have "var p = v" using \<open>p = Lit v False\<close> by simp
    ultimately show ?thesis by simp
  next
    case pos
    have not_neg: "l \<noteq> lit_neg p"
    proof
      assume "l = lit_neg p"
      with pos have pT: "p = Lit v True" by (cases p) (auto simp: lit_neg_def lit_xor_def)
      with v_range have "p \<noteq> lit_Undef" by (simp add: lit_Undef_def)
      from p_le[OF this] pT pos show False by (simp add: toInt_Lit)
    qed
    have vt: "Lit v True \<in> set xs" using Cons.prems(3) pos by auto
    have vl: "value_lit s l = l_Undef" using pos val_v by simp
    have rm: "removed (varData s ! var l) = none"
      using rem l_ps pos vl by auto
    have inv: "l \<in> set ps \<and> (\<forall>x \<in> set xs. toInt l \<le> toInt x)"
      using l_ps srt by blast
    show ?thesis
    proof (cases "l = p")
      case True
      with inv have ip: "p = lit_Undef \<or> (p \<in> set ps \<and> (\<forall>x \<in> set xs. toInt p \<le> toInt x))"
        by simp
      have "Lit v False \<in> set xs \<or> p = Lit v False" using True pos by simp
      from Cons.IH[OF srt(1) sub vt this ip, of acc] True not_neg vl
      show ?thesis by simp
    next
      case False
      from inv have il: "l = lit_Undef \<or> (l \<in> set ps \<and> (\<forall>x \<in> set xs. toInt l \<le> toInt x))"
        by simp
      have "Lit v False \<in> set xs \<or> l = Lit v False" using pos by simp
      from Cons.IH[OF srt(1) sub vt this il, of "acc @ [l]"]
        False not_neg rm vl
      show ?thesis by simp
    qed
  next
    case other
    have "toInt l \<le> toInt (Lit v True)" using srt(2) Cons.prems(3) other by auto
    moreover have "toInt l \<noteq> toInt (Lit v True)" "toInt l \<noteq> toInt (Lit v False)"
      using other by (simp_all add: toInt_inj)
    ultimately have less: "toInt l < 2 * v" by (simp add: toInt_Lit)
    then have var_less: "var l < v" by (simp add: toInt_less_var)
    from early l_ps var_less have nt: "value_lit s l \<noteq> l_True" and nn: "lit_neg l \<notin> set ps"
      by auto
    have not_neg: "l \<noteq> lit_neg p"
    proof
      assume lp: "l = lit_neg p"
      show False
      proof (cases "p = lit_Undef")
        case True
        with lp have "var l = var_Undef" by (simp add: lit_neg_def lit_xor_def lit_Undef_def)
        with range l_ps show False by auto
      next
        case False
        from p_le[OF this] have "p \<in> set ps" by simp
        moreover from lp have "lit_neg l = p" by (cases p) (simp add: lit_neg_def lit_xor_def)
        ultimately show False using nn by simp
      qed
    qed
    have p_not_vf: "p \<noteq> Lit v False"
    proof
      assume pv: "p = Lit v False"
      with v_range have "p \<noteq> lit_Undef" by (simp add: lit_Undef_def)
      from p_le[OF this] pv less show False by (simp add: toInt_Lit)
    qed
    have vt: "Lit v True \<in> set xs" using Cons.prems(3) other by auto
    have vf: "Lit v False \<in> set xs \<or> q = Lit v False" if "q = l \<or> q = p" for q
      using Cons.prems(4) other p_not_vf by auto
    have inv_l: "l = lit_Undef \<or> (l \<in> set ps \<and> (\<forall>x \<in> set xs. toInt l \<le> toInt x))"
      using l_ps srt by blast
    have inv_p: "p = lit_Undef \<or> (p \<in> set ps \<and> (\<forall>x \<in> set xs. toInt p \<le> toInt x))"
      using Cons.prems(5) by auto
    show ?thesis
    proof (cases "value_lit s l \<noteq> l_False \<and> l \<noteq> p")
      case True
      with nt have "value_lit s l = l_Undef" by (cases "value_lit s l") auto
      with rem l_ps var_less have rm: "removed (varData s ! var l) = none" by auto
      from Cons.IH[OF srt(1) sub vt vf[of l] inv_l, of "acc @ [l]"] True nt not_neg rm
      show ?thesis by simp
    next
      case False
      from Cons.IH[OF srt(1) sub vt vf[of p] inv_p, of acc] False nt not_neg
      show ?thesis by auto
    qed
  qed
qed

lemma tautology_discards_clause_aux:
  assumes "Lit v False \<in> set lits" "Lit v True \<in> set lits"
    and "assigns s ! v = l_Undef"
    and "\<forall>l \<in> set lits. var l < v \<longrightarrow> value_lit s l \<noteq> l_True \<and> lit_neg l \<notin> set lits"
    and "\<forall>l \<in> set lits. var l < var_Undef"
    and "\<forall>l \<in> set lits. var l \<le> v \<and> value_lit s l = l_Undef
           \<longrightarrow> removed (varData s ! var l) = none"
  shows "sort_and_clean_clause lits red s
           = Inr (None, if red then s else mark_undef_must_set v s)"
  unfolding sort_and_clean_clause_def
  by (rule clean_scan_tautology[where ps = lits])
     (use assms in \<open>simp_all add: sorted_sort_lits\<close>)

text \<open>
  C4.  Let \<open>v\<close> be an unassigned variable that occurs in the clause in both polarities, such
  that no literal of a smaller variable is true or has its complement in the clause (so
  the scan reaches the pair).  Then the cleaning returns false and \<open>add_clause_int\<close> returns
  no clause; the state is unchanged when the clause is redundant, and otherwise differs
  only in \<open>undef_must_set_vars\<close>, where the outer variable of \<open>v\<close> is now marked.
\<close>

theorem tautology_discards_clause:
  assumes "Lit v False \<in> set lits" "Lit v True \<in> set lits"
    and "assigns s ! v = l_Undef"
    and "\<forall>l \<in> set lits. var l < v \<longrightarrow> value_lit s l \<noteq> l_True \<and> lit_neg l \<notin> set lits"
    and "\<forall>l \<in> set lits. var l < var_Undef"
    and "\<forall>l \<in> set lits. var l \<le> v \<and> value_lit s l = l_Undef
           \<longrightarrow> removed (varData s ! var l) = none"
    and "ok s" "decisionLevel s = 0" "attach_long \<longrightarrow> qhead s = length (trail s)"
  shows "sort_and_clean_clause lits red s
           = Inr (None, if red then s else mark_undef_must_set v s)
       \<and> add_clause_int ext lits red stats attach_long want_final addDrat drat_first s
           = Inr (None, None, if red then s else mark_undef_must_set v s)
       \<and> (mark_undef_must_set v s)\<lparr>undef_must_set_vars := undef_must_set_vars s\<rparr> = s
       \<and> undef_must_set_vars (mark_undef_must_set v s) ! map_inter_to_outer s v = True"
  using tautology_discards_clause_aux[OF assms(1-6), of red] assms(7-9)
  by (simp add: add_clause_int_def mark_undef_must_set_only)

theorem tautology_discards_clause_witness:
  "add_clause_int ext0 [Lit 0 False, Lit 0 True, Lit 2 False] False (default_ClauseStats ext0)
       True True False lit_Undef (solver_vars 4)
     = Inr (None, None, solver_vars 4\<lparr>undef_must_set_vars := [True]\<rparr>)
   \<and> add_clause_int ext0 [Lit 0 False, Lit 0 True, Lit 2 False] True (default_ClauseStats ext0)
       True True False lit_Undef (solver_vars 4)
     = Inr (None, None, solver_vars 4)"
proof -
  let ?lits = "[Lit 0 False, Lit 0 True, Lit 2 False]"
  have h: "Lit 0 False \<in> set ?lits" "Lit 0 True \<in> set ?lits"
    "assigns (solver_vars 4) ! 0 = l_Undef"
    "\<forall>l \<in> set ?lits. var l < 0
        \<longrightarrow> value_lit (solver_vars 4) l \<noteq> l_True \<and> lit_neg l \<notin> set ?lits"
    "\<forall>l \<in> set ?lits. var l < var_Undef"
    "\<forall>l \<in> set ?lits. var l \<le> 0 \<and> value_lit (solver_vars 4) l = l_Undef
        \<longrightarrow> removed (varData (solver_vars 4) ! var l) = none"
    "ok (solver_vars 4)" "decisionLevel (solver_vars 4) = 0"
    "True \<longrightarrow> qhead (solver_vars 4) = length (trail (solver_vars 4))"
    by (simp_all add: solver_vars_def solver0_def var_Undef_def decisionLevel_def)
  have m: "mark_undef_must_set 0 (solver_vars 4) = solver_vars 4\<lparr>undef_must_set_vars := [True]\<rparr>"
    by (simp add: mark_undef_must_set_def map_inter_to_outer_def solver_vars_def solver0_def
          Let_def upt_conv_Cons)
  from tautology_discards_clause[OF h, of False ext0 "default_ClauseStats ext0" True False lit_Undef]
       tautology_discards_clause[OF h, of True ext0 "default_ClauseStats ext0" True False lit_Undef]
       m
  show ?thesis by simp
qed

subsection \<open>XOR cutting\<close>

text \<open>
  A clause whose variables increase strictly, all unassigned and none removed, passes the
  cleaning unchanged.
\<close>

lemma clean_scan_keeps_all:
  assumes "sorted_wrt (\<lambda>a b. var a < var b) c"
    and "\<forall>l \<in> set c. assigns s ! var l = l_Undef \<and> removed (varData s ! var l) = none"
    and "\<forall>l \<in> set c. var l \<noteq> var p"
  shows "clean_scan red p acc c s = Inr (Some (acc @ c), s)"
  using assms
proof (induction c arbitrary: p acc)
  case Nil
  then show ?case by simp
next
  case (Cons l c)
  have v: "value_lit s l = l_Undef" using Cons.prems(2) by (simp add: value_lit_def)
  have n: "l \<noteq> lit_neg p" "l \<noteq> p"
    using Cons.prems(3) by (auto simp: lit_neg_def lit_xor_def)
  have r: "removed (varData s ! var l) = none" using Cons.prems(2) by simp
  have IH: "clean_scan red l (acc @ [l]) c s = Inr (Some ((acc @ [l]) @ c), s)"
    using Cons.prems by (intro Cons.IH) auto
  with v n r show ?case by simp
qed

lemma sort_lits_id:
  assumes "sorted_wrt (\<lambda>a b. var a < var b) c"
  shows "sort_lits c = c"
proof -
  have "sorted_wrt (\<lambda>a b. toInt a \<le> toInt b) c"
    by (rule sorted_wrt_mono_rel[OF _ assms]) (auto simp: toInt_def)
  then have "sorted (map toInt c)" by (simp add: sorted_wrt_map)
  then show ?thesis by (simp add: sort_lits_def sort_key_id_if_sorted)
qed

lemma sort_and_clean_keeps_all:
  assumes "sorted_wrt (\<lambda>a b. var a < var b) c"
    and "\<forall>l \<in> set c. assigns s ! var l = l_Undef \<and> removed (varData s ! var l) = none
                      \<and> var l < var_Undef"
  shows "sort_and_clean_clause c red s = Inr (Some c, s)"
proof -
  have "\<forall>l \<in> set c. var l \<noteq> var lit_Undef"
    using assms(2) by (auto simp: lit_Undef_def)
  moreover have "\<forall>l \<in> set c. assigns s ! var l = l_Undef \<and> removed (varData s ! var l) = none"
    using assms(2) by blast
  ultimately have "clean_scan red lit_Undef [] c s = Inr (Some ([] @ c), s)"
    by (intro clean_scan_keeps_all[OF assms(1)])
  then show ?thesis
    by (simp add: sort_and_clean_clause_def sort_lits_id[OF assms(1)])
qed

lemma cut_new_lits_vars:
  "map var (cut_new_lits lits i) = map var lits" "length (cut_new_lits lits i) = length lits"
proof -
  have "map (\<lambda>k. var (lits ! k)) [0..<length lits] = map var (map (\<lambda>k. lits ! k) [0..<length lits])"
    by simp
  also have "\<dots> = map var lits" by (simp only: map_nth)
  finally show "map var (cut_new_lits lits i) = map var lits"
    by (simp add: cut_new_lits_def lit_xor_def comp_def)
  show "length (cut_new_lits lits i) = length lits" by (simp add: cut_new_lits_def)
qed

lemma sorted_wrt_var_map:
  "sorted_wrt (\<lambda>a b. var a < var b) c \<longleftrightarrow> sorted_wrt (<) (map var c)"
  by (simp add: sorted_wrt_map)

lemma cut_new_lits_ok:
  assumes "sorted_wrt (\<lambda>a b. var a < var b) lits"
    and "\<forall>l \<in> set lits. assigns s ! var l = l_Undef \<and> removed (varData s ! var l) = none
                         \<and> var l < var_Undef"
  shows "sort_and_clean_clause (cut_new_lits lits i) red s = Inr (Some (cut_new_lits lits i), s)"
proof (rule sort_and_clean_keeps_all)
  show "sorted_wrt (\<lambda>a b. var a < var b) (cut_new_lits lits i)"
    using assms(1) by (simp add: sorted_wrt_var_map cut_new_lits_vars)
  have "var ` set (cut_new_lits lits i) = var ` set lits"
    using cut_new_lits_vars(1)[of lits i] by (metis set_map)
  with assms(2)
  show "\<forall>l \<in> set (cut_new_lits lits i).
          assigns s ! var l = l_Undef \<and> removed (varData s ! var l) = none \<and> var l < var_Undef"
    by (metis (no_types, lifting) image_iff)
qed

text \<open>
  The clauses added by the loop over the sign patterns \<open>ps\<close>, for an XOR of more than two
  such literals: one long clause for every pattern with an odd number of set bits, and
  nothing else changes but the arena, the watch lists, the counters and the proof log.
\<close>

lemma cut_loop_long:
  assumes "sorted_wrt (\<lambda>a b. var a < var b) lits"
    and "\<forall>l \<in> set lits. assigns s ! var l = l_Undef \<and> removed (varData s ! var l) = none
                         \<and> var l < var_Undef"
    and "2 < length lits"
    and "ok s" "decisionLevel s = 0" "attach \<longrightarrow> qhead s = length (trail s)"
  shows "\<exists>S. cut_loop ext lits attach addDrat ps s = Inr S
           \<and> cl_alloc S = cl_alloc s
               @ map (\<lambda>i. \<lparr>cl_lits = cut_new_lits lits i, cl_red = False,
                            cl_stats = default_ClauseStats ext, cl_strengthened = False\<rparr>)
                     (filter (\<lambda>i. num_bits_set i (length lits) mod 2 \<noteq> 0) ps)
           \<and> longIrredCls S = longIrredCls s
               @ [length (cl_alloc s)..<length (cl_alloc s)
                    + length (filter (\<lambda>i. num_bits_set i (length lits) mod 2 \<noteq> 0) ps)]
           \<and> ok S \<and> decisionLevel S = 0 \<and> qhead S = qhead s \<and> trail S = trail s
           \<and> assigns S = assigns s \<and> varData S = varData s \<and> nVars S = nVars s
           \<and> nVarsOuter S = nVarsOuter s"
  using assms(2,4,5,6)
proof (induction ps arbitrary: s)
  case Nil
  then show ?case by simp
next
  case (Cons i ps)
  show ?case
  proof (cases "num_bits_set i (length lits) mod 2 = 0")
    case True
    with Cons.IH[OF Cons.prems] show ?thesis by simp
  next
    case False
    let ?c = "cut_new_lits lits i"
    have cln: "sort_and_clean_clause ?c False s = Inr (Some ?c, s)"
      using cut_new_lits_ok[OF assms(1) Cons.prems(1)] .
    have len: "2 < length ?c" using assms(3) by (simp add: cut_new_lits_vars)
    from add_clause_int_long[OF Cons.prems(2,3,4) cln len,
           of ext "default_ClauseStats ext" False addDrat lit_Undef]
    obtain S1 where
      r1: "add_clause_int ext ?c False (default_ClauseStats ext) attach False addDrat lit_Undef s
             = Inr (Some (length (cl_alloc s)), None, S1)"
      and a1: "cl_alloc S1 = cl_alloc s @ [\<lparr>cl_lits = ?c, cl_red = False,
                   cl_stats = default_ClauseStats ext, cl_strengthened = False\<rparr>]"
      and p1: "ok S1" "decisionLevel S1 = 0" "qhead S1 = qhead s" "trail S1 = trail s"
        "assigns S1 = assigns s" "varData S1 = varData s" "nVars S1 = nVars s"
        "nVarsOuter S1 = nVarsOuter s" "longIrredCls S1 = longIrredCls s"
      by auto
    let ?s2 = "S1\<lparr>longIrredCls := longIrredCls S1 @ [length (cl_alloc s)]\<rparr>"
    have pre2: "\<forall>l \<in> set lits. assigns ?s2 ! var l = l_Undef
                  \<and> removed (varData ?s2 ! var l) = none \<and> var l < var_Undef"
      "ok ?s2" "decisionLevel ?s2 = 0" "attach \<longrightarrow> qhead ?s2 = length (trail ?s2)"
      using Cons.prems p1 by (simp_all add: decisionLevel_def)
    from Cons.IH[OF pre2] obtain S where
      r2: "cut_loop ext lits attach addDrat ps ?s2 = Inr S"
      and a2: "cl_alloc S = cl_alloc ?s2
               @ map (\<lambda>i. \<lparr>cl_lits = cut_new_lits lits i, cl_red = False,
                            cl_stats = default_ClauseStats ext, cl_strengthened = False\<rparr>)
                     (filter (\<lambda>i. num_bits_set i (length lits) mod 2 \<noteq> 0) ps)"
      and l2: "longIrredCls S = longIrredCls ?s2
               @ [length (cl_alloc ?s2)..<length (cl_alloc ?s2)
                    + length (filter (\<lambda>i. num_bits_set i (length lits) mod 2 \<noteq> 0) ps)]"
      and p2: "ok S" "decisionLevel S = 0" "qhead S = qhead ?s2" "trail S = trail ?s2"
        "assigns S = assigns ?s2" "varData S = varData ?s2" "nVars S = nVars ?s2"
        "nVarsOuter S = nVarsOuter ?s2"
      by blast
    have run: "cut_loop ext lits attach addDrat (i # ps) s = Inr S"
      using False r1 r2 p1(1) by simp
    have arena: "cl_alloc S = cl_alloc s
               @ map (\<lambda>i. \<lparr>cl_lits = cut_new_lits lits i, cl_red = False,
                            cl_stats = default_ClauseStats ext, cl_strengthened = False\<rparr>)
                     (filter (\<lambda>i. num_bits_set i (length lits) mod 2 \<noteq> 0) (i # ps))"
      using a2 a1 False by simp
    have irred: "longIrredCls S = longIrredCls s
               @ [length (cl_alloc s)..<length (cl_alloc s)
                    + length (filter (\<lambda>i. num_bits_set i (length lits) mod 2 \<noteq> 0) (i # ps))]"
    proof -
      let ?n = "length (cl_alloc s)"
      let ?k = "length (filter (\<lambda>i. num_bits_set i (length lits) mod 2 \<noteq> 0) ps)"
      have u: "[?n..<?n + Suc ?k] = ?n # [Suc ?n..<Suc ?n + ?k]" by (simp add: upt_rec)
      have n2: "length (cl_alloc ?s2) = Suc ?n" using a1 by simp
      have k2: "length (filter (\<lambda>i. num_bits_set i (length lits) mod 2 \<noteq> 0) (i # ps)) = Suc ?k"
        using False by simp
      have "longIrredCls S = (longIrredCls s @ [?n]) @ [Suc ?n..<Suc ?n + ?k]"
        unfolding l2 n2 using p1(9) by simp
      also have "\<dots> = longIrredCls s @ [?n..<?n + Suc ?k]"
        unfolding u by simp
      finally show ?thesis unfolding k2 .
    qed
    show ?thesis
      apply (rule exI[of _ S])
      apply (intro conjI)
                apply (rule run)
               apply (rule arena)
              apply (rule irred)
      using p1 p2 apply simp_all
      done
  qed
qed

lemma upt_sixteen:
  "[0..<2 ^ 4] = [0, 1, 2, 3, 4, 5, 6, 7, 8, 9, 10, 11, 12, 13, 14, 15::nat]"
  by code_simp

lemma upt_four: "[0..<4] = [0, 1, 2, 3::nat]"
  by code_simp

lemma num_bits_set_four:
  "num_bits_set i 4 =
     (if odd i then 1 else 0) + (if odd (i div 2) then 1 else 0)
     + (if odd (i div 4) then 1 else 0) + (if odd (i div 8) then 1 else 0)"
  by (simp add: num_bits_set_def upt_four)

lemma odd_patterns_of_four:
  "filter (\<lambda>i. num_bits_set i 4 mod 2 \<noteq> 0) [0..<2 ^ 4] = [1, 2, 4, 7, 8, 11, 13, 14]"
  unfolding upt_sixteen by (simp add: num_bits_set_four)

lemma length_four: "length [x1, x2, x3, x4] = 4"
  by simp

lemma cut_new_lits_four:
  "cut_new_lits [x1, x2, x3, x4] i =
     [lit_xor x1 (odd i), lit_xor x2 (odd (i div 2)), lit_xor x3 (odd (i div 4)),
      lit_xor x4 (odd (i div 8))]"
  unfolding cut_new_lits_def length_four upt_four by simp

text \<open>With four literals the first round takes them all and leaves nothing to connect.\<close>

lemma xor_cut_step_four:
  "xor_cut_step ext [x1, x2, x3, x4] lit_Undef s = ([x1, x2, x3, x4], [], lit_Undef, s)"
  by (simp add: xor_cut_step_def)

lemma add_every_combination_xor_four:
  "add_every_combination_xor ext [x1, x2, x3, x4] attach addDrat s =
     add_xor_clause_inter_cleaned_cut ext [x1, x2, x3, x4] attach addDrat s"
proof -
  have "add_every_combination_xor ext [x1, x2, x3, x4] attach addDrat s =
      (case add_xor_clause_inter_cleaned_cut ext [x1, x2, x3, x4] attach addDrat s of
         Inl e \<Rightarrow> Inl e
       | Inr s2 \<Rightarrow> if \<not> ok s2 then Inr s2
                   else add_every_combination_xor_loop ext attach addDrat [] lit_Undef s2)"
    unfolding add_every_combination_xor_def
    by (subst add_every_combination_xor_loop.simps) (simp add: xor_cut_step_four)
  then show ?thesis by (simp split: sum.splits)
qed

text \<open>
  The outcome of cutting a four-literal XOR: no variable is created, and the eight clauses
  with an odd number of inverted literals are stored, each with all four literals.
\<close>

lemma four_literal_xor_aux:
  assumes inc: "var x1 < var x2" "var x2 < var x3" "var x3 < var x4"
    and free: "\<forall>l \<in> set [x1, x2, x3, x4]. assigns s ! var l = l_Undef
                 \<and> removed (varData s ! var l) = none \<and> var l < var_Undef"
    and st: "ok s" "decisionLevel s = 0" "attach \<longrightarrow> qhead s = length (trail s)"
  shows "\<exists>S. add_every_combination_xor ext [x1, x2, x3, x4] attach addDrat s = Inr S
           \<and> nVars S = nVars s \<and> nVarsOuter S = nVarsOuter s \<and> ok S
           \<and> map cl_lits (drop (length (cl_alloc s)) (cl_alloc S)) =
               [[lit_xor x1 True, x2, x3, x4],
                [x1, lit_xor x2 True, x3, x4],
                [x1, x2, lit_xor x3 True, x4],
                [lit_xor x1 True, lit_xor x2 True, lit_xor x3 True, x4],
                [x1, x2, x3, lit_xor x4 True],
                [lit_xor x1 True, lit_xor x2 True, x3, lit_xor x4 True],
                [lit_xor x1 True, x2, lit_xor x3 True, lit_xor x4 True],
                [x1, lit_xor x2 True, lit_xor x3 True, lit_xor x4 True]]
           \<and> longIrredCls S =
               longIrredCls s @ [length (cl_alloc s)..<length (cl_alloc s) + 8]"
proof -
  let ?lits = "[x1, x2, x3, x4]"
  have srt: "sorted_wrt (\<lambda>a b. var a < var b) ?lits" using inc by auto
  have len: "2 < length ?lits" by simp
  from cut_loop_long[OF srt free len st, of ext addDrat "[0..<2 ^ 4]"]
  obtain S where run: "cut_loop ext ?lits attach addDrat [0..<2 ^ 4] s = Inr S"
    and alloc: "cl_alloc S = cl_alloc s @
        map (\<lambda>i. \<lparr>cl_lits = cut_new_lits ?lits i, cl_red = False,
                   cl_stats = default_ClauseStats ext, cl_strengthened = False\<rparr>)
          (filter (\<lambda>i. num_bits_set i (length ?lits) mod 2 \<noteq> 0) [0..<2 ^ 4])"
    and irred: "longIrredCls S = longIrredCls s @
        [length (cl_alloc s)..<length (cl_alloc s)
           + length (filter (\<lambda>i. num_bits_set i (length ?lits) mod 2 \<noteq> 0) [0..<2 ^ 4])]"
    and rest: "ok S" "nVars S = nVars s" "nVarsOuter S = nVarsOuter s"
    by (elim exE conjE)
  have pat: "filter (\<lambda>i. num_bits_set i (length ?lits) mod 2 \<noteq> 0) [0..<2 ^ 4]
      = [1, 2, 4, 7, 8, 11, 13, 14]"
    unfolding length_four by (rule odd_patterns_of_four)
  have xid: "\<And>l. lit_xor l False = l" by (simp add: lit_xor_def)
  have r1: "add_every_combination_xor ext ?lits attach addDrat s = Inr S"
    unfolding add_every_combination_xor_four add_xor_clause_inter_cleaned_cut_def length_four
    by (rule run)
  have r2: "map cl_lits (drop (length (cl_alloc s)) (cl_alloc S)) =
               [[lit_xor x1 True, x2, x3, x4],
                [x1, lit_xor x2 True, x3, x4],
                [x1, x2, lit_xor x3 True, x4],
                [lit_xor x1 True, lit_xor x2 True, lit_xor x3 True, x4],
                [x1, x2, x3, lit_xor x4 True],
                [lit_xor x1 True, lit_xor x2 True, x3, lit_xor x4 True],
                [lit_xor x1 True, x2, lit_xor x3 True, lit_xor x4 True],
                [x1, lit_xor x2 True, lit_xor x3 True, lit_xor x4 True]]"
    unfolding alloc pat by (simp add: cut_new_lits_four xid)
  have r3: "longIrredCls S = longIrredCls s @ [length (cl_alloc s)..<length (cl_alloc s) + 8]"
  proof -
    have l8: "length [1, 2, 4, 7, 8, 11, 13, 14::nat] = 8" by simp
    show ?thesis unfolding irred pat l8 by (rule refl)
  qed
  show ?thesis by (rule exI[of _ S]) (intro conjI r1 r2 r3 rest)
qed

text \<open>
  C1, as the code has it.  An XOR whose cleaned form has exactly four literals
  \<open>x1, x2, x3, x4\<close> (variables strictly increasing, all unassigned and not removed, as the
  cleaning of \<open>add_xor_clause_inter\<close> leaves them) is not split by
  \<open>add_every_combination_xor\<close>: the first round of its loop takes all four literals, so no
  fresh variable is created (\<open>nVars\<close> is unchanged) and
  \<open>add_xor_clause_inter_cleaned_cut\<close> is called once, on the four literals.  It stores the
  eight clauses of four literals in which an odd number of literals is inverted, as
  irredundant long clauses.  It does not produce two ternary XORs joined by a fresh variable.
\<close>

theorem four_literal_xor_is_one_cut:
  assumes "var x1 < var x2" "var x2 < var x3" "var x3 < var x4"
    and "\<forall>l \<in> set [x1, x2, x3, x4]. assigns s ! var l = l_Undef
                 \<and> removed (varData s ! var l) = none \<and> var l < var_Undef"
    and "ok s" "decisionLevel s = 0" "attach \<longrightarrow> qhead s = length (trail s)"
  shows "add_every_combination_xor ext [x1, x2, x3, x4] attach addDrat s =
           add_xor_clause_inter_cleaned_cut ext [x1, x2, x3, x4] attach addDrat s
         \<and> (\<exists>S. add_every_combination_xor ext [x1, x2, x3, x4] attach addDrat s = Inr S
           \<and> nVars S = nVars s \<and> nVarsOuter S = nVarsOuter s \<and> ok S
           \<and> map cl_lits (drop (length (cl_alloc s)) (cl_alloc S)) =
               [[lit_xor x1 True, x2, x3, x4],
                [x1, lit_xor x2 True, x3, x4],
                [x1, x2, lit_xor x3 True, x4],
                [lit_xor x1 True, lit_xor x2 True, lit_xor x3 True, x4],
                [x1, x2, x3, lit_xor x4 True],
                [lit_xor x1 True, lit_xor x2 True, x3, lit_xor x4 True],
                [lit_xor x1 True, x2, lit_xor x3 True, lit_xor x4 True],
                [x1, lit_xor x2 True, lit_xor x3 True, lit_xor x4 True]]
           \<and> longIrredCls S =
               longIrredCls s @ [length (cl_alloc s)..<length (cl_alloc s) + 8])"
  using four_literal_xor_aux[OF assms] add_every_combination_xor_four by (rule conjI[rotated])

lemma solver_vars_free:
  "v < n \<Longrightarrow> assigns (solver_vars n) ! v = l_Undef"
  "v < n \<Longrightarrow> removed (varData (solver_vars n) ! v) = none"
  "nVars (solver_vars n) = n" "nVarsOuter (solver_vars n) = n"
  "longIrredCls (solver_vars n) = []"
  by (simp_all add: solver_vars_def solver0_def)

theorem four_literal_xor_is_one_cut_witness:
  "add_every_combination_xor ext0 [Lit 0 True, Lit 2 False, Lit 3 False, Lit 4 False]
       True False (solver_vars 6) =
     add_xor_clause_inter_cleaned_cut ext0 [Lit 0 True, Lit 2 False, Lit 3 False, Lit 4 False]
       True False (solver_vars 6)
   \<and> (\<exists>S. add_every_combination_xor ext0 [Lit 0 True, Lit 2 False, Lit 3 False, Lit 4 False]
            True False (solver_vars 6) = Inr S
         \<and> nVars S = 6 \<and> ok S
         \<and> map cl_lits (cl_alloc S) =
             [[Lit 0 False, Lit 2 False, Lit 3 False, Lit 4 False],
              [Lit 0 True, Lit 2 True, Lit 3 False, Lit 4 False],
              [Lit 0 True, Lit 2 False, Lit 3 True, Lit 4 False],
              [Lit 0 False, Lit 2 True, Lit 3 True, Lit 4 False],
              [Lit 0 True, Lit 2 False, Lit 3 False, Lit 4 True],
              [Lit 0 False, Lit 2 True, Lit 3 False, Lit 4 True],
              [Lit 0 False, Lit 2 False, Lit 3 True, Lit 4 True],
              [Lit 0 True, Lit 2 True, Lit 3 True, Lit 4 True]]
         \<and> longIrredCls S = [0, 1, 2, 3, 4, 5, 6, 7])"
proof -
  let ?x1 = "Lit 0 True" and ?x2 = "Lit 2 False" and ?x3 = "Lit 3 False" and ?x4 = "Lit 4 False"
  have u8: "[0..<8] = [0, 1, 2, 3, 4, 5, 6, 7::nat]" by code_simp
  have p1: "var ?x1 < var ?x2" "var ?x2 < var ?x3" "var ?x3 < var ?x4" by simp_all
  have p2: "\<forall>l \<in> set [?x1, ?x2, ?x3, ?x4]. assigns (solver_vars 6) ! var l = l_Undef
       \<and> removed (varData (solver_vars 6) ! var l) = none \<and> var l < var_Undef"
    by (simp add: solver_vars_free var_Undef_def)
  have p3: "ok (solver_vars 6)" "decisionLevel (solver_vars 6) = 0"
    "True \<longrightarrow> qhead (solver_vars 6) = length (trail (solver_vars 6))"
    by (simp_all add: solver_vars_simps)
  note th = four_literal_xor_is_one_cut[OF p1 p2 p3, of ext0 False]
  from th have eq: "add_every_combination_xor ext0 [?x1, ?x2, ?x3, ?x4] True False
      (solver_vars 6) =
     add_xor_clause_inter_cleaned_cut ext0 [?x1, ?x2, ?x3, ?x4] True False (solver_vars 6)"
    by (rule conjunct1)
  from th obtain S where
    run: "add_every_combination_xor ext0 [?x1, ?x2, ?x3, ?x4] True False (solver_vars 6) = Inr S"
    and nv: "nVars S = nVars (solver_vars 6)" and okS: "ok S"
    and cls: "map cl_lits (drop (length (cl_alloc (solver_vars 6))) (cl_alloc S)) =
               [[lit_xor ?x1 True, ?x2, ?x3, ?x4],
                [?x1, lit_xor ?x2 True, ?x3, ?x4],
                [?x1, ?x2, lit_xor ?x3 True, ?x4],
                [lit_xor ?x1 True, lit_xor ?x2 True, lit_xor ?x3 True, ?x4],
                [?x1, ?x2, ?x3, lit_xor ?x4 True],
                [lit_xor ?x1 True, lit_xor ?x2 True, ?x3, lit_xor ?x4 True],
                [lit_xor ?x1 True, ?x2, lit_xor ?x3 True, lit_xor ?x4 True],
                [?x1, lit_xor ?x2 True, lit_xor ?x3 True, lit_xor ?x4 True]]"
    and irr: "longIrredCls S = longIrredCls (solver_vars 6) @
               [length (cl_alloc (solver_vars 6))..<length (cl_alloc (solver_vars 6)) + 8]"
    by (elim conjE exE)
  have c1: "nVars S = 6" using nv by (simp add: solver_vars_free)
  have c2: "map cl_lits (cl_alloc S) =
             [[Lit 0 False, Lit 2 False, Lit 3 False, Lit 4 False],
              [Lit 0 True, Lit 2 True, Lit 3 False, Lit 4 False],
              [Lit 0 True, Lit 2 False, Lit 3 True, Lit 4 False],
              [Lit 0 False, Lit 2 True, Lit 3 True, Lit 4 False],
              [Lit 0 True, Lit 2 False, Lit 3 False, Lit 4 True],
              [Lit 0 False, Lit 2 True, Lit 3 False, Lit 4 True],
              [Lit 0 False, Lit 2 False, Lit 3 True, Lit 4 True],
              [Lit 0 True, Lit 2 True, Lit 3 True, Lit 4 True]]"
    using cls by (simp add: solver_vars_simps lit_xor_def)
  have c3: "longIrredCls S = [0, 1, 2, 3, 4, 5, 6, 7]"
    using irr by (simp add: solver_vars_simps solver_vars_free u8)
  show ?thesis
    by (rule conjI[OF eq]) (rule exI[of _ S], intro conjI run c1 okS c2 c3)
qed

text \<open>
  The claim as stated fails on \<open>x0 \<oplus> x2 \<oplus> x3 \<oplus> x4 = 0\<close> over six declared variables: the
  number of variables stays six, and the clauses stored are eight clauses of four literals,
  not eight clauses of three literals over a seventh variable.
\<close>

theorem four_literal_xor_counterexample:
  "map_sum id nVars
     (add_every_combination_xor ext0 [Lit 0 False, Lit 2 False, Lit 3 False, Lit 4 False]
        True False (solver_vars 6)) = Inr 6
   \<and> map_sum id (map cl_lits \<circ> cl_alloc)
     (add_every_combination_xor ext0 [Lit 0 False, Lit 2 False, Lit 3 False, Lit 4 False]
        True False (solver_vars 6)) =
     Inr [[Lit 0 True, Lit 2 False, Lit 3 False, Lit 4 False],
          [Lit 0 False, Lit 2 True, Lit 3 False, Lit 4 False],
          [Lit 0 False, Lit 2 False, Lit 3 True, Lit 4 False],
          [Lit 0 True, Lit 2 True, Lit 3 True, Lit 4 False],
          [Lit 0 False, Lit 2 False, Lit 3 False, Lit 4 True],
          [Lit 0 True, Lit 2 True, Lit 3 False, Lit 4 True],
          [Lit 0 True, Lit 2 False, Lit 3 True, Lit 4 True],
          [Lit 0 False, Lit 2 True, Lit 3 True, Lit 4 True]]"
proof -
  from four_literal_xor_aux[of "Lit 0 False" "Lit 2 False" "Lit 3 False" "Lit 4 False"
        "solver_vars 6" True ext0 False]
  obtain S where "add_every_combination_xor ext0
        [Lit 0 False, Lit 2 False, Lit 3 False, Lit 4 False] True False (solver_vars 6) = Inr S"
    and "nVars S = 6"
    and "map cl_lits (cl_alloc S) =
         [[Lit 0 True, Lit 2 False, Lit 3 False, Lit 4 False],
          [Lit 0 False, Lit 2 True, Lit 3 False, Lit 4 False],
          [Lit 0 False, Lit 2 False, Lit 3 True, Lit 4 False],
          [Lit 0 True, Lit 2 True, Lit 3 True, Lit 4 False],
          [Lit 0 False, Lit 2 False, Lit 3 False, Lit 4 True],
          [Lit 0 True, Lit 2 True, Lit 3 False, Lit 4 True],
          [Lit 0 True, Lit 2 False, Lit 3 True, Lit 4 True],
          [Lit 0 False, Lit 2 True, Lit 3 True, Lit 4 True]]"
    by (auto simp: solver_vars_simps solver_vars_free var_Undef_def lit_xor_def)
  then show ?thesis by simp
qed

subsection \<open>Soundness of the model minimizer\<close>

declare undefine_loop.simps [simp del]

lemma shrinks_refl: "shrinks u u"
  by (simp add: shrinks_def)

lemma shrinks_trans: "shrinks u u1 \<Longrightarrow> shrinks u1 u2 \<Longrightarrow> shrinks u u2"
  by (simp add: shrinks_def)

lemma shrinks_fixed: "shrinks u u1 \<Longrightarrow> fixed_true s u l \<Longrightarrow> fixed_true s u1 l"
  by (simp add: shrinks_def fixed_true_def)

lemma shrinks_update_zero:
  "shrinks u (u\<lparr>can_be_unset := (can_be_unset u)[v := 0], can_be_unsetSum := c\<rparr>)"
proof -
  have "(can_be_unset u)[v := 0] ! w = 0" if "can_be_unset u ! w = 0" for w
  proof (cases "v < length (can_be_unset u)")
    case True
    with that show ?thesis by (cases "w = v") simp_all
  next
    case False
    then have "(can_be_unset u)[v := 0] = can_be_unset u" by (simp add: list_update_beyond)
    with that show ?thesis by simp
  qed
  then show ?thesis by (simp add: shrinks_def)
qed

lemma filter_update_zero_Suc:
  "v < length xs \<Longrightarrow> xs ! v \<noteq> (0::8 word)
     \<Longrightarrow> Suc (length (filter (\<lambda>x. x \<noteq> 0) (xs[v := 0]))) = length (filter (\<lambda>x. x \<noteq> 0) xs)"
proof (induction xs arbitrary: v)
  case Nil
  then show ?case by simp
next
  case (Cons a xs)
  show ?case
  proof (cases v)
    case 0
    with Cons.prems show ?thesis by simp
  next
    case (Suc n)
    with Cons.prems have "n < length xs" "xs ! n \<noteq> 0" by auto
    from Cons.IH[OF this] Suc show ?thesis by simp
  qed
qed

lemma counter_exact_update_zero:
  assumes "counter_exact u" "v < length (can_be_unset u)" "can_be_unset u ! v \<noteq> 0"
  shows "unat (can_be_unsetSum u - 1) = num_candidates (u\<lparr>can_be_unset := (can_be_unset u)[v := 0]\<rparr>)"
proof -
  from filter_update_zero_Suc[OF assms(2,3)]
  have c: "Suc (num_candidates (u\<lparr>can_be_unset := (can_be_unset u)[v := 0]\<rparr>)) = num_candidates u"
    by (simp add: num_candidates_def)
  with assms(1) have "unat (can_be_unsetSum u) \<noteq> 0" by (simp add: counter_exact_def)
  then have "can_be_unsetSum u \<noteq> 0" by auto
  then have "unat (can_be_unsetSum u - 1) = unat (can_be_unsetSum u) - 1"
    by (rule unat_minus_one)
  with c assms(1) show ?thesis by (simp add: counter_exact_def)
qed

lemma look_scan_None:
  "look_scan s u c v n = None \<Longrightarrow> \<exists>l \<in> set c. fixed_true s u l"
  by (induction c arbitrary: v n) (auto simp: fixed_true_def split: if_splits)

lemma look_scan_Some:
  "look_scan s u c v n = Some (v', n') \<Longrightarrow>
     n' = n + length (filter (\<lambda>l. model_value s l = l_True) c)
     \<and> (\<forall>l \<in> set c. model_value s l = l_True \<longrightarrow> can_be_unset u ! var l \<noteq> 0)
     \<and> (v' = v \<and> filter (\<lambda>l. model_value s l = l_True) c = []
         \<or> (\<exists>l \<in> set c. v' = var l \<and> model_value s l = l_True))"
proof (induction c arbitrary: v n)
  case Nil
  then show ?case by simp
next
  case (Cons l ls)
  show ?case
  proof (cases "model_value s l = l_True")
    case True
    with Cons.prems have cu: "can_be_unset u ! var l \<noteq> 0"
      and r: "look_scan s u ls (var l) (n + 1) = Some (v', n')"
      by (auto split: if_splits)
    from Cons.IH[OF r] True cu show ?thesis by auto
  next
    case False
    with Cons.prems have r: "look_scan s u ls v n = Some (v', n')" by simp
    from Cons.IH[OF r] False show ?thesis by auto
  qed
qed

text \<open>
  One clause: on a clause the model satisfies, with its variables in range,
  \<open>undef_look_at_one_clause\<close> returns; it answers true only when the clause has a fixed true
  literal, and it asks for a fix otherwise.
\<close>

lemma look_at_one_clause_sound:
  assumes rng: "\<forall>l \<in> set c. var l < length (can_be_unset u)"
    and len: "length (can_be_unset u) \<le> var_Undef"
    and sat: "\<exists>l \<in> set c. model_value s l = l_True"
    and inv: "counter_exact u"
  shows "\<exists>r u1. undef_look_at_one_clause s c u = Inr (r, u1)
           \<and> shrinks u u1 \<and> counter_exact u1
           \<and> dontLookAtClause u1 = dontLookAtClause u
           \<and> (r \<longrightarrow> (\<exists>l \<in> set c. fixed_true s u1 l) \<and> must_fix u1 = must_fix u)
           \<and> (\<not> r \<longrightarrow> must_fix u1)"
proof (cases "look_scan s u c var_Undef 0")
  case None
  have run: "undef_look_at_one_clause s c u = Inr (True, u)"
    using None by (simp add: undef_look_at_one_clause_def)
  from look_scan_None[OF None] have "\<exists>l \<in> set c. fixed_true s u l" .
  with run inv shrinks_refl[of u] show ?thesis by auto
next
  case (Some p)
  obtain v n where p: "p = (v, n)" by (cases p)
  from look_scan_Some[OF Some[unfolded p]]
  have n: "n = length (filter (\<lambda>l. model_value s l = l_True) c)"
    and cand: "\<forall>l \<in> set c. model_value s l = l_True \<longrightarrow> can_be_unset u ! var l \<noteq> 0"
    and v: "v = var_Undef \<and> filter (\<lambda>l. model_value s l = l_True) c = []
         \<or> (\<exists>l \<in> set c. v = var l \<and> model_value s l = l_True)"
    by simp_all
  from sat have ne: "filter (\<lambda>l. model_value s l = l_True) c \<noteq> []"
    by (auto simp: filter_empty_conv)
  with n have npos: "0 < n" by simp
  from v ne obtain l where l: "l \<in> set c" "v = var l" "model_value s l = l_True" by auto
  with rng cand have vr: "v < length (can_be_unset u)" and vc: "can_be_unset u ! v \<noteq> 0"
    by auto
  from vr len have vu: "v \<noteq> var_Undef" by simp
  show ?thesis
  proof (cases "n = 1")
    case True
    let ?u1 = "u\<lparr>can_be_unset := (can_be_unset u)[v := 0],
                 can_be_unsetSum := can_be_unsetSum u - 1\<rparr>"
    have run: "undef_look_at_one_clause s c u = Inr (True, ?u1)"
      using Some p True vu vc by (simp add: undef_look_at_one_clause_def)
    have sh: "shrinks u ?u1" by (rule shrinks_update_zero)
    have ce: "counter_exact ?u1"
      using counter_exact_update_zero[OF inv vr vc]
      by (simp add: counter_exact_def num_candidates_def)
    have fx: "fixed_true s ?u1 l" using l vr by (simp add: fixed_true_def)
    from run sh ce fx l(1) show ?thesis by auto
  next
    case False
    with npos have gt: "n > 1" by simp
    let ?u1 = "u\<lparr>must_fix := True, satisfies := foldl (count_satisfies s) (satisfies u) c\<rparr>"
    have run: "undef_look_at_one_clause s c u = Inr (False, ?u1)"
      using Some p False gt by (simp add: undef_look_at_one_clause_def Let_def)
    have sh: "shrinks u ?u1" by (simp add: shrinks_def)
    have ce: "counter_exact ?u1" using inv by (simp add: counter_exact_def num_candidates_def)
    from run sh ce show ?thesis by auto
  qed
qed

lemma shrinks_dont_look_ok:
  assumes "dont_look_ok s u" "shrinks u u1" "dontLookAtClause u1 = dontLookAtClause u"
  shows "dont_look_ok s u1"
  using assms shrinks_fixed[OF assms(2)] unfolding dont_look_ok_def by metis

text \<open>The loop over the long clauses.\<close>

lemma long_loop_sound:
  assumes idx: "\<forall>i \<in> set is. i < length (longIrredCls s)"
    and cs: "clauses_sat s (length (can_be_unset u))"
    and len: "length (can_be_unset u) \<le> var_Undef"
    and inv: "counter_exact u"
    and dl: "dont_look_ok s u"
  shows "\<exists>u1. undef_long_loop s is u = Inr u1
           \<and> shrinks u u1 \<and> counter_exact u1 \<and> dont_look_ok s u1
           \<and> (must_fix u \<longrightarrow> must_fix u1)
           \<and> (\<not> must_fix u1 \<longrightarrow> (\<forall>i \<in> set is. \<exists>l \<in> set (long_clause s i). fixed_true s u1 l))"
  using assms
proof (induction "is" arbitrary: u)
  case Nil
  then show ?case by (simp add: shrinks_refl)
next
  case (Cons i rest)
  from Cons.prems(1) have i: "i < length (longIrredCls s)"
    and idx': "\<forall>i \<in> set rest. i < length (longIrredCls s)" by simp_all
  show ?case
  proof (cases "dontLookAtClause u ! i")
    case True
    from Cons.IH[OF idx' Cons.prems(2-5)] obtain u1 where
      run: "undef_long_loop s rest u = Inr u1" and sh: "shrinks u u1"
      and ce: "counter_exact u1" and dl1: "dont_look_ok s u1"
      and mf: "must_fix u \<longrightarrow> must_fix u1"
      and fx: "\<not> must_fix u1 \<longrightarrow> (\<forall>i \<in> set rest. \<exists>l \<in> set (long_clause s i). fixed_true s u1 l)"
      by blast
    from Cons.prems(5) True i obtain l where "l \<in> set (long_clause s i)" "fixed_true s u l"
      by (auto simp: dont_look_ok_def)
    with sh have "\<exists>l \<in> set (long_clause s i). fixed_true s u1 l"
      using shrinks_fixed by blast
    with run sh ce dl1 mf fx True show ?thesis by auto
  next
    case False
    from Cons.prems(2) i have rng: "\<forall>l \<in> set (long_clause s i). var l < length (can_be_unset u)"
      and sat: "\<exists>l \<in> set (long_clause s i). model_value s l = l_True"
      by (simp_all add: clauses_sat_def)
    from look_at_one_clause_sound[OF rng Cons.prems(3) sat Cons.prems(4)]
    obtain r u2 where look: "undef_look_at_one_clause s (long_clause s i) u = Inr (r, u2)"
      and sh2: "shrinks u u2" and ce2: "counter_exact u2"
      and dle: "dontLookAtClause u2 = dontLookAtClause u"
      and rt: "r \<longrightarrow> (\<exists>l \<in> set (long_clause s i). fixed_true s u2 l) \<and> must_fix u2 = must_fix u"
      and rf: "\<not> r \<longrightarrow> must_fix u2"
      by blast
    let ?u3 = "if r then u2\<lparr>dontLookAtClause := (dontLookAtClause u2)[i := True]\<rparr> else u2"
    have cbu3: "can_be_unset ?u3 = can_be_unset u2" by simp
    have sh3: "shrinks u ?u3" using sh2 by (simp add: shrinks_def)
    have cs3: "clauses_sat s (length (can_be_unset ?u3))"
      using Cons.prems(2) sh2 by (simp add: shrinks_def)
    have len3: "length (can_be_unset ?u3) \<le> var_Undef"
      using Cons.prems(3) sh2 by (simp add: shrinks_def)
    have ce3: "counter_exact ?u3"
      using ce2 by (simp add: counter_exact_def num_candidates_def)
    have dl2: "dont_look_ok s u2" by (rule shrinks_dont_look_ok[OF Cons.prems(5) sh2 dle])
    have dl3: "dont_look_ok s ?u3"
    proof (cases r)
      case False
      with dl2 show ?thesis by simp
    next
      case True
      with rt obtain l where l: "l \<in> set (long_clause s i)" "fixed_true s u2 l" by auto
      have "\<exists>l \<in> set (long_clause s j). fixed_true s u2 l"
        if "j < length (longIrredCls s)" "(dontLookAtClause u2)[i := True] ! j" for j
      proof (cases "j = i")
        case True
        with l show ?thesis by auto
      next
        case False
        with that have "dontLookAtClause u2 ! j" by simp
        with dl2 that(1) show ?thesis by (simp add: dont_look_ok_def)
      qed
      with True show ?thesis by (simp add: dont_look_ok_def fixed_true_def)
    qed
    from Cons.IH[OF idx' cs3 len3 ce3 dl3] obtain u1 where
      run: "undef_long_loop s rest ?u3 = Inr u1" and sh: "shrinks ?u3 u1"
      and ce: "counter_exact u1" and dl1: "dont_look_ok s u1"
      and mf: "must_fix ?u3 \<longrightarrow> must_fix u1"
      and fx: "\<not> must_fix u1 \<longrightarrow> (\<forall>i \<in> set rest. \<exists>l \<in> set (long_clause s i). fixed_true s u1 l)"
      by blast
    have run': "undef_long_loop s (i # rest) u = Inr u1"
      using False look run by (simp add: long_clause_def)
    have sh': "shrinks u u1" by (rule shrinks_trans[OF sh3 sh])
    have mf': "must_fix u \<longrightarrow> must_fix u1"
      using mf rt rf by (cases r) auto
    have fxi: "\<exists>l \<in> set (long_clause s i). fixed_true s u1 l" if "\<not> must_fix u1"
    proof -
      from that mf rf have r by (cases r) auto
      with rt obtain l where l: "l \<in> set (long_clause s i)" "fixed_true s u2 l" by auto
      from l(2) \<open>r\<close> have "fixed_true s ?u3 l" by (simp add: fixed_true_def)
      with sh have "fixed_true s u1 l" by (rule shrinks_fixed)
      with l(1) show ?thesis by auto
    qed
    from run' sh' ce dl1 mf' fx fxi show ?thesis by auto
  qed
qed

lemma toInt_toLit: "toInt (toLit i) = i"
  by (simp add: toInt_def toLit_def)

lemma var_toLit: "var (toLit i) = i div 2"
  by (simp add: toLit_def)

text \<open>The loop over one watch list, and the loop over all literals.\<close>

lemma watch_loop_sound:
  assumes ws: "\<forall>w \<in> set ws. isBin w \<longrightarrow> var (w_lit2 w) < length (can_be_unset u)
                 \<and> (model_value s l = l_True \<or> model_value s (w_lit2 w) = l_True)"
    and lr: "var l < length (can_be_unset u)"
    and len: "length (can_be_unset u) \<le> var_Undef"
    and inv: "counter_exact u"
  shows "\<exists>u1. undef_watch_loop s l ws u = Inr u1
           \<and> shrinks u u1 \<and> counter_exact u1
           \<and> dontLookAtClause u1 = dontLookAtClause u
           \<and> (must_fix u \<longrightarrow> must_fix u1)
           \<and> (\<not> must_fix u1 \<longrightarrow> (\<forall>w \<in> set ws. isBin w \<and> lit_less l (w_lit2 w)
                  \<longrightarrow> fixed_true s u1 l \<or> fixed_true s u1 (w_lit2 w)))"
  using assms
proof (induction ws arbitrary: u)
  case Nil
  then show ?case by (simp add: shrinks_refl)
next
  case (Cons w ws)
  from Cons.prems(1) have ws': "\<forall>w \<in> set ws. isBin w \<longrightarrow> var (w_lit2 w) < length (can_be_unset u)
                 \<and> (model_value s l = l_True \<or> model_value s (w_lit2 w) = l_True)"
    by simp
  show ?case
  proof (cases "isBin w \<and> lit_less l (w_lit2 w)")
    case False
    from Cons.IH[OF ws' Cons.prems(2-4)] obtain u1 where
      run: "undef_watch_loop s l ws u = Inr u1" and sh: "shrinks u u1"
      and ce: "counter_exact u1" and dl: "dontLookAtClause u1 = dontLookAtClause u"
      and mf: "must_fix u \<longrightarrow> must_fix u1"
      and fx: "\<not> must_fix u1 \<longrightarrow> (\<forall>w \<in> set ws. isBin w \<and> lit_less l (w_lit2 w)
                  \<longrightarrow> fixed_true s u1 l \<or> fixed_true s u1 (w_lit2 w))"
      by blast
    have run': "undef_watch_loop s l (w # ws) u = Inr u1" using False run by auto
    from run' sh ce dl mf fx False show ?thesis by auto
  next
    case True
    with Cons.prems(1) have wr: "var (w_lit2 w) < length (can_be_unset u)"
      and wsat: "model_value s l = l_True \<or> model_value s (w_lit2 w) = l_True" by simp_all
    from wr Cons.prems(2) have rng: "\<forall>k \<in> set [l, w_lit2 w]. var k < length (can_be_unset u)"
      by simp
    from wsat have sat: "\<exists>k \<in> set [l, w_lit2 w]. model_value s k = l_True" by auto
    from look_at_one_clause_sound[OF rng Cons.prems(3) sat Cons.prems(4)]
    obtain r u2 where look: "undef_look_at_one_clause s [l, w_lit2 w] u = Inr (r, u2)"
      and sh2: "shrinks u u2" and ce2: "counter_exact u2"
      and dle: "dontLookAtClause u2 = dontLookAtClause u"
      and rt: "r \<longrightarrow> (\<exists>k \<in> set [l, w_lit2 w]. fixed_true s u2 k) \<and> must_fix u2 = must_fix u"
      and rf: "\<not> r \<longrightarrow> must_fix u2"
      by blast
    from sh2 have leq: "length (can_be_unset u2) = length (can_be_unset u)"
      by (simp add: shrinks_def)
    have ws2: "\<forall>w \<in> set ws. isBin w \<longrightarrow> var (w_lit2 w) < length (can_be_unset u2)
                 \<and> (model_value s l = l_True \<or> model_value s (w_lit2 w) = l_True)"
      using ws' leq by simp
    have lr2: "var l < length (can_be_unset u2)" using Cons.prems(2) leq by simp
    have len2: "length (can_be_unset u2) \<le> var_Undef" using Cons.prems(3) leq by simp
    from Cons.IH[OF ws2 lr2 len2 ce2] obtain u1 where
      run: "undef_watch_loop s l ws u2 = Inr u1" and sh: "shrinks u2 u1"
      and ce: "counter_exact u1" and dl: "dontLookAtClause u1 = dontLookAtClause u2"
      and mf: "must_fix u2 \<longrightarrow> must_fix u1"
      and fx: "\<not> must_fix u1 \<longrightarrow> (\<forall>w \<in> set ws. isBin w \<and> lit_less l (w_lit2 w)
                  \<longrightarrow> fixed_true s u1 l \<or> fixed_true s u1 (w_lit2 w))"
      by blast
    have run': "undef_watch_loop s l (w # ws) u = Inr u1" using True look run by simp
    have sh': "shrinks u u1" by (rule shrinks_trans[OF sh2 sh])
    have dl': "dontLookAtClause u1 = dontLookAtClause u" using dl dle by simp
    have mf': "must_fix u \<longrightarrow> must_fix u1" using mf rt rf by (cases r) auto
    have fxw: "fixed_true s u1 l \<or> fixed_true s u1 (w_lit2 w)" if "\<not> must_fix u1"
    proof -
      from that mf rf have r by (cases r) auto
      with rt have "fixed_true s u2 l \<or> fixed_true s u2 (w_lit2 w)" by auto
      with sh show ?thesis using shrinks_fixed by blast
    qed
    from run' sh' ce dl' mf' fx fxw show ?thesis by auto
  qed
qed

lemma bin_loop_sound:
  assumes idx: "\<forall>i \<in> set is. i < 2 * nVars s"
    and nv: "nVars s \<le> length (can_be_unset u)"
    and cs: "clauses_sat s (length (can_be_unset u))"
    and len: "length (can_be_unset u) \<le> var_Undef"
    and inv: "counter_exact u"
  shows "\<exists>u1. undef_bin_loop s is u = Inr u1
           \<and> shrinks u u1 \<and> counter_exact u1
           \<and> dontLookAtClause u1 = dontLookAtClause u
           \<and> (must_fix u \<longrightarrow> must_fix u1)
           \<and> (\<not> must_fix u1 \<longrightarrow> (\<forall>i \<in> set is. \<forall>w \<in> set (watches s ! i).
                  isBin w \<and> lit_less (toLit i) (w_lit2 w)
                  \<longrightarrow> fixed_true s u1 (toLit i) \<or> fixed_true s u1 (w_lit2 w)))"
  using assms
proof (induction "is" arbitrary: u)
  case Nil
  then show ?case by (simp add: shrinks_refl)
next
  case (Cons i rest)
  from Cons.prems(1) have i: "i < 2 * nVars s" and idx': "\<forall>i \<in> set rest. i < 2 * nVars s"
    by simp_all
  show ?case
  proof (cases "can_be_unset u ! var (toLit i) = 0 \<and> model_value s (toLit i) = l_True")
    case True
    from Cons.IH[OF idx' Cons.prems(2-5)] obtain u1 where
      run: "undef_bin_loop s rest u = Inr u1" and sh: "shrinks u u1"
      and ce: "counter_exact u1" and dl: "dontLookAtClause u1 = dontLookAtClause u"
      and mf: "must_fix u \<longrightarrow> must_fix u1"
      and fx: "\<not> must_fix u1 \<longrightarrow> (\<forall>i \<in> set rest. \<forall>w \<in> set (watches s ! i).
                  isBin w \<and> lit_less (toLit i) (w_lit2 w)
                  \<longrightarrow> fixed_true s u1 (toLit i) \<or> fixed_true s u1 (w_lit2 w))"
      by blast
    have run': "undef_bin_loop s (i # rest) u = Inr u1" using True run by (simp add: Let_def)
    from True have "fixed_true s u (toLit i)" by (simp add: fixed_true_def)
    with sh have "fixed_true s u1 (toLit i)" by (rule shrinks_fixed)
    with run' sh ce dl mf fx show ?thesis by auto
  next
    case False
    from i have lr: "var (toLit i) < length (can_be_unset u)"
      using Cons.prems(2) by (simp add: var_toLit)
    from Cons.prems(3) i
    have ws: "\<forall>w \<in> set (watches s ! i). isBin w \<longrightarrow> var (w_lit2 w) < length (can_be_unset u)
                 \<and> (model_value s (toLit i) = l_True \<or> model_value s (w_lit2 w) = l_True)"
      by (simp add: clauses_sat_def)
    from watch_loop_sound[OF ws lr Cons.prems(4,5)] obtain u2 where
      w: "undef_watch_loop s (toLit i) (watches s ! i) u = Inr u2" and sh2: "shrinks u u2"
      and ce2: "counter_exact u2" and dl2: "dontLookAtClause u2 = dontLookAtClause u"
      and mf2: "must_fix u \<longrightarrow> must_fix u2"
      and fx2: "\<not> must_fix u2 \<longrightarrow> (\<forall>w \<in> set (watches s ! i). isBin w \<and> lit_less (toLit i) (w_lit2 w)
                  \<longrightarrow> fixed_true s u2 (toLit i) \<or> fixed_true s u2 (w_lit2 w))"
      by blast
    from sh2 have leq: "length (can_be_unset u2) = length (can_be_unset u)"
      by (simp add: shrinks_def)
    have nv2: "nVars s \<le> length (can_be_unset u2)" using Cons.prems(2) leq by simp
    have cs2: "clauses_sat s (length (can_be_unset u2))" using Cons.prems(3) leq by simp
    have len2: "length (can_be_unset u2) \<le> var_Undef" using Cons.prems(4) leq by simp
    from Cons.IH[OF idx' nv2 cs2 len2 ce2] obtain u1 where
      run: "undef_bin_loop s rest u2 = Inr u1" and sh: "shrinks u2 u1"
      and ce: "counter_exact u1" and dl: "dontLookAtClause u1 = dontLookAtClause u2"
      and mf: "must_fix u2 \<longrightarrow> must_fix u1"
      and fx: "\<not> must_fix u1 \<longrightarrow> (\<forall>i \<in> set rest. \<forall>w \<in> set (watches s ! i).
                  isBin w \<and> lit_less (toLit i) (w_lit2 w)
                  \<longrightarrow> fixed_true s u1 (toLit i) \<or> fixed_true s u1 (w_lit2 w))"
      by blast
    have run': "undef_bin_loop s (i # rest) u = Inr u1"
      using False w run by (auto simp: Let_def toInt_toLit)
    have sh': "shrinks u u1" by (rule shrinks_trans[OF sh2 sh])
    have dl': "dontLookAtClause u1 = dontLookAtClause u" using dl dl2 by simp
    have mf': "must_fix u \<longrightarrow> must_fix u1" using mf mf2 by simp
    have fxi: "\<forall>w \<in> set (watches s ! i). isBin w \<and> lit_less (toLit i) (w_lit2 w)
                  \<longrightarrow> fixed_true s u1 (toLit i) \<or> fixed_true s u1 (w_lit2 w)"
      if "\<not> must_fix u1"
    proof -
      from that mf have "\<not> must_fix u2" by auto
      with fx2 have "\<forall>w \<in> set (watches s ! i). isBin w \<and> lit_less (toLit i) (w_lit2 w)
                  \<longrightarrow> fixed_true s u2 (toLit i) \<or> fixed_true s u2 (w_lit2 w)" by simp
      with sh show ?thesis using shrinks_fixed by blast
    qed
    from run' sh' ce dl' mf' fx fxi show ?thesis by auto
  qed
qed

text \<open>
  One pass of \<open>undef_check_must_fix\<close>: it returns, and when it does not ask for a fix every
  clause has a fixed true literal.
\<close>

lemma check_must_fix_sound:
  assumes nv: "nVars s \<le> length (can_be_unset u)"
    and cs: "clauses_sat s (length (can_be_unset u))"
    and len: "length (can_be_unset u) \<le> var_Undef"
    and inv: "counter_exact u"
    and dl: "dont_look_ok s u"
  shows "\<exists>u1. undef_check_must_fix s u = Inr u1
           \<and> shrinks u u1 \<and> counter_exact u1 \<and> dont_look_ok s u1
           \<and> (\<not> must_fix u1 \<longrightarrow> all_fixed s u1)"
proof -
  let ?u0 = "u\<lparr>must_fix := False\<rparr>"
  have idx: "\<forall>i \<in> set [0..<length (longIrredCls s)]. i < length (longIrredCls s)" by simp
  have cs0: "clauses_sat s (length (can_be_unset ?u0))" using cs by simp
  have len0: "length (can_be_unset ?u0) \<le> var_Undef" using len by simp
  have inv0: "counter_exact ?u0" using inv by (simp add: counter_exact_def num_candidates_def)
  have dl0: "dont_look_ok s ?u0" using dl by (simp add: dont_look_ok_def fixed_true_def)
  from long_loop_sound[OF idx cs0 len0 inv0 dl0] obtain u2 where
    run2: "undef_long_loop s [0..<length (longIrredCls s)] ?u0 = Inr u2"
    and sh2: "shrinks ?u0 u2" and ce2: "counter_exact u2" and dl2: "dont_look_ok s u2"
    and fx2: "\<not> must_fix u2 \<longrightarrow> (\<forall>i \<in> set [0..<length (longIrredCls s)].
                 \<exists>l \<in> set (long_clause s i). fixed_true s u2 l)"
    by blast
  from sh2 have leq: "length (can_be_unset u2) = length (can_be_unset u)"
    by (simp add: shrinks_def)
  have idxb: "\<forall>i \<in> set [0..<nVars s * 2]. i < 2 * nVars s" by simp
  have nv2: "nVars s \<le> length (can_be_unset u2)" using nv leq by simp
  have cs2: "clauses_sat s (length (can_be_unset u2))" using cs leq by simp
  have len2: "length (can_be_unset u2) \<le> var_Undef" using len leq by simp
  from bin_loop_sound[OF idxb nv2 cs2 len2 ce2] obtain u1 where
    run: "undef_bin_loop s [0..<nVars s * 2] u2 = Inr u1" and sh: "shrinks u2 u1"
    and ce: "counter_exact u1" and dle: "dontLookAtClause u1 = dontLookAtClause u2"
    and mf: "must_fix u2 \<longrightarrow> must_fix u1"
    and fx: "\<not> must_fix u1 \<longrightarrow> (\<forall>i \<in> set [0..<nVars s * 2]. \<forall>w \<in> set (watches s ! i).
                  isBin w \<and> lit_less (toLit i) (w_lit2 w)
                  \<longrightarrow> fixed_true s u1 (toLit i) \<or> fixed_true s u1 (w_lit2 w))"
    by blast
  have run': "undef_check_must_fix s u = Inr u1"
    using run2 run by (simp add: undef_check_must_fix_def)
  have sh0: "shrinks u ?u0" by (simp add: shrinks_def)
  have sh': "shrinks u u1" by (rule shrinks_trans[OF shrinks_trans[OF sh0 sh2] sh])
  have dl1: "dont_look_ok s u1" by (rule shrinks_dont_look_ok[OF dl2 sh dle])
  have af: "all_fixed s u1" if nm: "\<not> must_fix u1"
  proof -
    from nm mf have "\<not> must_fix u2" by auto
    with fx2 have "\<forall>i < length (longIrredCls s). \<exists>l \<in> set (long_clause s i). fixed_true s u2 l"
      by simp
    with sh have a: "\<forall>i < length (longIrredCls s). \<exists>l \<in> set (long_clause s i). fixed_true s u1 l"
      using shrinks_fixed by blast
    from nm fx have b: "\<forall>i < 2 * nVars s. \<forall>w \<in> set (watches s ! i).
                  isBin w \<and> lit_less (toLit i) (w_lit2 w)
                  \<longrightarrow> fixed_true s u1 (toLit i) \<or> fixed_true s u1 (w_lit2 w)"
      by simp
    from a b show ?thesis by (simp add: all_fixed_def)
  qed
  from run' sh' ce dl1 af show ?thesis by auto
qed

text \<open>The search for the variable to fix finds a candidate whenever there is one.\<close>

lemma undef_pick_keeps:
  "can_be_unset u ! snd st \<noteq> 0 \<Longrightarrow> snd st < n \<Longrightarrow> set is \<subseteq> {..<n}
     \<Longrightarrow> can_be_unset u ! snd (foldl (undef_pick_step u) st is) \<noteq> 0
         \<and> snd (foldl (undef_pick_step u) st is) < n"
proof (induction "is" arbitrary: st)
  case Nil
  then show ?case by simp
next
  case (Cons i rest)
  have "can_be_unset u ! snd (undef_pick_step u st i) \<noteq> 0 \<and> snd (undef_pick_step u st i) < n"
    using Cons.prems by (cases st) (auto simp: undef_pick_step_def)
  with Cons.IH[of "undef_pick_step u st i"] Cons.prems(3) show ?case by simp
qed

lemma undef_pick_finds:
  "fst st = 0 \<Longrightarrow> \<exists>j \<in> set is. can_be_unset u ! j \<noteq> 0 \<Longrightarrow> set is \<subseteq> {..<n}
     \<Longrightarrow> can_be_unset u ! snd (foldl (undef_pick_step u) st is) \<noteq> 0
         \<and> snd (foldl (undef_pick_step u) st is) < n"
proof (induction "is" arbitrary: st)
  case Nil
  then show ?case by simp
next
  case (Cons i rest)
  show ?case
  proof (cases "can_be_unset u ! i \<noteq> 0")
    case True
    with Cons.prems(1) have st': "undef_pick_step u st i = (satisfies u ! i, i)"
      by (cases st) (simp add: undef_pick_step_def)
    from Cons.prems(3) have "i < n" "set rest \<subseteq> {..<n}" by simp_all
    with undef_pick_keeps[of u "(satisfies u ! i, i)" n rest] True st' show ?thesis by simp
  next
    case False
    with Cons.prems(1) have st': "undef_pick_step u st i = st"
      by (cases st) (simp add: undef_pick_step_def)
    from False Cons.prems(2) have "\<exists>j \<in> set rest. can_be_unset u ! j \<noteq> 0" by auto
    from Cons.IH[OF Cons.prems(1) this] Cons.prems(3) st' show ?thesis by simp
  qed
qed

lemma undef_pick_candidate:
  assumes "0 < num_candidates u"
  shows "undef_pick u < length (can_be_unset u) \<and> can_be_unset u ! undef_pick u \<noteq> 0"
proof -
  from assms have "filter (\<lambda>x. x \<noteq> 0) (can_be_unset u) \<noteq> []"
    by (simp add: num_candidates_def)
  then obtain x where "x \<in> set (can_be_unset u)" "x \<noteq> 0" by (auto simp: filter_empty_conv)
  then obtain j where "j < length (can_be_unset u)" "can_be_unset u ! j \<noteq> 0"
    unfolding in_set_conv_nth by blast
  then have ex: "\<exists>j \<in> set [0..<length (can_be_unset u)]. can_be_unset u ! j \<noteq> 0" by auto
  have sub: "set [0..<length (can_be_unset u)] \<subseteq> {..<length (can_be_unset u)}" by auto
  from undef_pick_finds[of "(0, var_Undef)", OF _ ex sub] show ?thesis
    by (simp add: undef_pick_def)
qed

lemma no_candidates_all_zero:
  assumes "num_candidates u = 0" "v < length (can_be_unset u)"
  shows "can_be_unset u ! v = 0"
proof -
  from assms(1) have "filter (\<lambda>x. x \<noteq> 0) (can_be_unset u) = []"
    by (simp add: num_candidates_def)
  then have "\<forall>x \<in> set (can_be_unset u). x = 0" by (simp add: filter_empty_conv)
  with assms(2) show ?thesis by simp
qed

lemma no_candidates_all_fixed:
  assumes nc: "num_candidates u = 0"
    and nv: "nVars s \<le> length (can_be_unset u)"
    and cs: "clauses_sat s (length (can_be_unset u))"
  shows "all_fixed s u"
proof -
  have fx: "fixed_true s u l" if "model_value s l = l_True" "var l < length (can_be_unset u)" for l
    using that no_candidates_all_zero[OF nc] by (simp add: fixed_true_def)
  have a: "\<exists>l \<in> set (long_clause s i). fixed_true s u l" if "i < length (longIrredCls s)" for i
  proof -
    from cs that obtain l where "l \<in> set (long_clause s i)" "model_value s l = l_True"
      "var l < length (can_be_unset u)"
      unfolding clauses_sat_def by blast
    with fx show ?thesis by blast
  qed
  have b: "fixed_true s u (toLit i) \<or> fixed_true s u (w_lit2 w)"
    if "i < 2 * nVars s" "w \<in> set (watches s ! i)" "isBin w" for i w
  proof -
    from cs that have r: "var (w_lit2 w) < length (can_be_unset u)"
      and t: "model_value s (toLit i) = l_True \<or> model_value s (w_lit2 w) = l_True"
      unfolding clauses_sat_def by blast+
    from that(1) nv have "var (toLit i) < length (can_be_unset u)" by (simp add: var_toLit)
    with r t fx show ?thesis by blast
  qed
  from a b show ?thesis unfolding all_fixed_def by blast
qed

text \<open>
  The main loop returns, and at its exit every clause has a true literal whose variable is
  not a candidate any more.
\<close>

lemma undefine_loop_sound:
  assumes nv: "nVars s \<le> length (can_be_unset u)"
    and cs: "clauses_sat s (length (can_be_unset u))"
    and len: "length (can_be_unset u) \<le> var_Undef"
    and inv: "counter_exact u"
    and dl: "dont_look_ok s u"
  shows "\<exists>u1. undefine_loop s u = Inr u1 \<and> shrinks u u1 \<and> counter_exact u1 \<and> all_fixed s u1"
  using assms
proof (induction "num_candidates u" arbitrary: u rule: less_induct)
  case less
  from check_must_fix_sound[OF less.prems] obtain u1 where
    chk: "undef_check_must_fix s u = Inr u1" and sh1: "shrinks u u1"
    and ce1: "counter_exact u1" and dl1: "dont_look_ok s u1"
    and af1: "\<not> must_fix u1 \<longrightarrow> all_fixed s u1"
    by blast
  from sh1 have leq: "length (can_be_unset u1) = length (can_be_unset u)"
    by (simp add: shrinks_def)
  show ?case
  proof (cases "must_fix u1 \<and> can_be_unsetSum u1 > 0")
    case False
    have run: "undefine_loop s u = Inr u1"
      using chk False by (subst undefine_loop.simps) auto
    have "all_fixed s u1"
    proof (cases "must_fix u1")
      case False
      with af1 show ?thesis by simp
    next
      case True
      with False have "can_be_unsetSum u1 = 0" by (auto simp: word_gt_0)
      with ce1 have "num_candidates u1 = 0" by (simp add: counter_exact_def)
      from no_candidates_all_fixed[OF this] less.prems(1,2) leq show ?thesis by simp
    qed
    with run sh1 ce1 show ?thesis by blast
  next
    case True
    then have "can_be_unsetSum u1 \<noteq> 0" by auto
    then have "unat (can_be_unsetSum u1) \<noteq> 0" by (simp add: unat_eq_0)
    with ce1 have pos: "0 < num_candidates u1" by (simp add: counter_exact_def)
    let ?v = "undef_pick u1"
    from undef_pick_candidate[OF pos] have vr: "?v < length (can_be_unset u1)"
      and vc: "can_be_unset u1 ! ?v \<noteq> 0" by simp_all
    from vr leq less.prems(3) have vu: "?v \<noteq> var_Undef" by simp
    let ?u2 = "u1\<lparr>can_be_unset := (can_be_unset u1)[?v := 0],
                  can_be_unsetSum := can_be_unsetSum u1 - 1,
                  num_fixed := num_fixed u1 + 1,
                  satisfies := replicate (length (satisfies u1)) 0\<rparr>"
    have step: "undefine_loop s u = undefine_loop s ?u2"
      using chk True vu vc by (subst undefine_loop.simps) (simp add: Let_def)
    have sh2: "shrinks u1 ?u2"
      using shrinks_update_zero[where u = u1 and v = ?v and c = "can_be_unsetSum u1 - 1"]
      by (simp add: shrinks_def)
    have ce2: "counter_exact ?u2"
      using counter_exact_update_zero[OF ce1 vr vc]
      by (simp add: counter_exact_def num_candidates_def)
    have dl2: "dont_look_ok s ?u2"
      by (rule shrinks_dont_look_ok[OF dl1 sh2]) simp
    have m: "num_candidates ?u2 < num_candidates u"
    proof -
      have "num_candidates ?u2 < num_candidates u1"
        using filter_update_zero_less[OF vr vc] by (simp add: num_candidates_def)
      with check_must_fix_num_candidates[OF chk] show ?thesis by simp
    qed
    have nv2: "nVars s \<le> length (can_be_unset ?u2)" using less.prems(1) leq by simp
    have cs2: "clauses_sat s (length (can_be_unset ?u2))" using less.prems(2) leq by simp
    have len2: "length (can_be_unset ?u2) \<le> var_Undef" using less.prems(3) leq by simp
    from less.hyps[OF m nv2 cs2 len2 ce2 dl2] obtain u3 where
      run: "undefine_loop s ?u2 = Inr u3" and sh3: "shrinks ?u2 u3"
      and ce3: "counter_exact u3" and af: "all_fixed s u3"
      by blast
    from step run have "undefine_loop s u = Inr u3" by simp
    moreover have "shrinks u u3" by (rule shrinks_trans[OF shrinks_trans[OF sh1 sh2] sh3])
    ultimately show ?thesis using ce3 af by blast
  qed
qed

text \<open>Unsetting the remaining candidates keeps the value of every other variable.\<close>

lemma unset_fold_keeps:
  "can_be_unset u ! j = 0 \<Longrightarrow> foldl (undef_unset_step u) m is ! j = m ! j"
proof (induction "is" arbitrary: m)
  case Nil
  then show ?case by simp
next
  case (Cons i rest)
  have "undef_unset_step u m i ! j = m ! j"
    using Cons.prems by (cases "i = j") (auto simp: undef_unset_step_def)
  with Cons.IH[OF Cons.prems, of "undef_unset_step u m i"] show ?case by simp
qed

lemma fixed_true_after_unset:
  "fixed_true s u l \<Longrightarrow> model_value (undef_unset_potentials u s) l = l_True"
  by (simp add: fixed_true_def model_value_def undef_unset_potentials_def unset_fold_keeps)

text \<open>Counting the entries with a property when one entry is overwritten.\<close>

lemma filter_update_count:
  "v < length xs \<Longrightarrow>
     length (filter P (xs[v := x])) + (if P (xs ! v) then 1 else 0)
       = length (filter P xs) + (if P x then 1 else 0)"
proof (induction xs arbitrary: v)
  case Nil
  then show ?case by simp
next
  case (Cons a xs)
  show ?case
  proof (cases v)
    case 0
    then show ?thesis by simp
  next
    case (Suc n)
    with Cons.prems have "n < length xs" by simp
    from Cons.IH[OF this] Suc show ?thesis by simp
  qed
qed

lemma byte_le_one: "(x::8 word) \<le> 1 \<longleftrightarrow> x = 0 \<or> x = 1"
  by (auto simp: le_less word_less_1)

lemma counter_plus_one:
  assumes "unat (c::32 word) < var_Undef"
  shows "unat (c + 1) = unat c + 1"
proof -
  from assms have "unat c + unat (1::32 word) < 2 ^ LENGTH(32)" by (simp add: var_Undef_def)
  then show ?thesis by (simp add: unat_add_lem[THEN iffD1])
qed

text \<open>
  The first loop of \<open>undef_fill_potentials\<close> over distinct variables, when no independent
  set is given: the counter stays exact.
\<close>

lemma fill_trail_exact:
  assumes ind: "independent_vars (conf s) = None"
    and dist: "distinct vs"
    and rng: "\<forall>v \<in> set vs. v < length (can_be_unset u) \<and> removed (varData s ! v) = none
                \<and> v < length (assumptionsSet s)"
    and zero: "\<forall>v \<in> set vs. can_be_unset u ! v = 0"
    and inv: "counter_exact u"
    and len: "length (can_be_unset u) \<le> var_Undef"
  shows "\<exists>u1. undef_fill_trail s vs u = Inr u1 \<and> counter_exact u1
           \<and> length (can_be_unset u1) = length (can_be_unset u)
           \<and> dontLookAtClause u1 = dontLookAtClause u"
  using dist rng zero inv len
proof (induction vs arbitrary: u)
  case Nil
  then show ?case by simp
next
  case (Cons v rest)
  from Cons.prems have vr: "v < length (can_be_unset u)" and rm: "removed (varData s ! v) = none"
    and va: "v < length (assumptionsSet s)" and vz: "can_be_unset u ! v = 0"
    and vn: "v \<notin> set rest" and dr: "distinct rest" by simp_all
  let ?u1 = "if model s ! v \<noteq> l_Undef \<and> assumptionsSet s ! v = False
             then u\<lparr>can_be_unset := (can_be_unset u)[v := can_be_unset u ! v + 1],
                    can_be_unsetSum := (if independent_vars (conf s) = None
                                        then can_be_unsetSum u + 1 else can_be_unsetSum u)\<rparr>
             else u"
  have l1: "length (can_be_unset ?u1) = length (can_be_unset u)" by simp
  have d1: "dontLookAtClause ?u1 = dontLookAtClause u" by simp
  have z1: "\<forall>w \<in> set rest. can_be_unset ?u1 ! w = 0"
  proof
    fix w assume w: "w \<in> set rest"
    with vn have "v \<noteq> w" by auto
    with w Cons.prems(3) show "can_be_unset ?u1 ! w = 0" by simp
  qed
  have r1: "\<forall>w \<in> set rest. w < length (can_be_unset ?u1) \<and> removed (varData s ! w) = none
                \<and> w < length (assumptionsSet s)"
    using Cons.prems(2) by simp
  have c1: "counter_exact ?u1"
  proof (cases "model s ! v \<noteq> l_Undef \<and> assumptionsSet s ! v = False")
    case False
    with Cons.prems(4) show ?thesis by auto
  next
    case True
    from filter_update_count[OF vr, of "\<lambda>x. x \<noteq> 0" 1] vz
    have cnt: "length (filter (\<lambda>x. x \<noteq> 0) ((can_be_unset u)[v := 1]))
        = Suc (length (filter (\<lambda>x. x \<noteq> 0) (can_be_unset u)))" by simp
    have "length (filter (\<lambda>x. x \<noteq> 0) ((can_be_unset u)[v := 1])) \<le> length (can_be_unset u)"
      using length_filter_le[of "\<lambda>x. x \<noteq> 0" "(can_be_unset u)[v := 1]"] by simp
    with cnt Cons.prems(4,5) have "unat (can_be_unsetSum u) < var_Undef"
      by (simp add: counter_exact_def num_candidates_def)
    from counter_plus_one[OF this] cnt Cons.prems(4) True ind vz show ?thesis
      by (simp add: counter_exact_def num_candidates_def)
  qed
  have len1: "length (can_be_unset ?u1) \<le> var_Undef" using Cons.prems(5) by simp
  from Cons.IH[OF dr r1 z1 c1 len1] obtain u2 where
    run: "undef_fill_trail s rest ?u1 = Inr u2" and c2: "counter_exact u2"
    and l2: "length (can_be_unset u2) = length (can_be_unset ?u1)"
    and d2: "dontLookAtClause u2 = dontLookAtClause ?u1"
    by blast
  have "undef_fill_trail s (v # rest) u = Inr u2"
    using rm va run by simp
  with c2 l2 d2 l1 d1 show ?case by simp
qed

text \<open>
  With an independent set, the first loop leaves the counter alone and marks each variable
  of the trail once.
\<close>

lemma fill_trail_marks:
  assumes ind: "independent_vars (conf s) \<noteq> None"
    and dist: "distinct vs"
    and rng: "\<forall>v \<in> set vs. v < length (can_be_unset u) \<and> removed (varData s ! v) = none
                \<and> v < length (assumptionsSet s)"
    and zero: "\<forall>v \<in> set vs. can_be_unset u ! v = 0"
    and small: "\<forall>j < length (can_be_unset u). can_be_unset u ! j \<le> 1"
  shows "\<exists>u1. undef_fill_trail s vs u = Inr u1 \<and> can_be_unsetSum u1 = can_be_unsetSum u
           \<and> length (can_be_unset u1) = length (can_be_unset u)
           \<and> dontLookAtClause u1 = dontLookAtClause u
           \<and> (\<forall>j < length (can_be_unset u1). can_be_unset u1 ! j \<le> 1)"
  using dist rng zero small
proof (induction vs arbitrary: u)
  case Nil
  then show ?case by simp
next
  case (Cons v rest)
  from Cons.prems have vr: "v < length (can_be_unset u)" and rm: "removed (varData s ! v) = none"
    and va: "v < length (assumptionsSet s)" and vz: "can_be_unset u ! v = 0"
    and vn: "v \<notin> set rest" and dr: "distinct rest" by simp_all
  let ?u1 = "if model s ! v \<noteq> l_Undef \<and> assumptionsSet s ! v = False
             then u\<lparr>can_be_unset := (can_be_unset u)[v := can_be_unset u ! v + 1],
                    can_be_unsetSum := (if independent_vars (conf s) = None
                                        then can_be_unsetSum u + 1 else can_be_unsetSum u)\<rparr>
             else u"
  have l1: "length (can_be_unset ?u1) = length (can_be_unset u)" by simp
  have d1: "dontLookAtClause ?u1 = dontLookAtClause u" by simp
  have s1: "can_be_unsetSum ?u1 = can_be_unsetSum u" using ind by auto
  have z1: "\<forall>w \<in> set rest. can_be_unset ?u1 ! w = 0"
  proof
    fix w assume w: "w \<in> set rest"
    with vn have "v \<noteq> w" by auto
    with w Cons.prems(3) show "can_be_unset ?u1 ! w = 0" by simp
  qed
  have r1: "\<forall>w \<in> set rest. w < length (can_be_unset ?u1) \<and> removed (varData s ! w) = none
                \<and> w < length (assumptionsSet s)"
    using Cons.prems(2) by simp
  have m1: "\<forall>j < length (can_be_unset ?u1). can_be_unset ?u1 ! j \<le> 1"
  proof (intro allI impI)
    fix j assume "j < length (can_be_unset ?u1)"
    then have j: "j < length (can_be_unset u)" by (simp only: l1)
    with Cons.prems(4) have "can_be_unset u ! j \<le> 1" by simp
    with j vz show "can_be_unset ?u1 ! j \<le> 1" by (cases "j = v") simp_all
  qed
  from Cons.IH[OF dr r1 z1 m1] obtain u2 where
    run: "undef_fill_trail s rest ?u1 = Inr u2"
    and s2: "can_be_unsetSum u2 = can_be_unsetSum ?u1"
    and l2: "length (can_be_unset u2) = length (can_be_unset ?u1)"
    and d2: "dontLookAtClause u2 = dontLookAtClause ?u1"
    and m2: "\<forall>j < length (can_be_unset u2). can_be_unset u2 ! j \<le> 1"
    by blast
  have "undef_fill_trail s (v # rest) u = Inr u2"
    using rm va run by simp
  with s2 l2 d2 m2 s1 l1 d1 show ?case by simp
qed

text \<open>
  The second loop, over an independent set whose variables are mapped to distinct inner
  variables: the counter is the number of variables marked twice.
\<close>

lemma fill_independent_counts:
  assumes inside: "\<forall>v \<in> set vs. v \<le> nVarsOutside s"
    and dist: "distinct (map (\<lambda>v. map_outer_to_inter s (outer_to_with_bva_map s ! v)) vs)"
    and nv: "nVars s \<le> length (can_be_unset u)"
    and once: "\<forall>v \<in> set vs. map_outer_to_inter s (outer_to_with_bva_map s ! v) < nVars s \<longrightarrow>
                 can_be_unset u ! map_outer_to_inter s (outer_to_with_bva_map s ! v) \<le> 1"
    and small: "\<forall>j < length (can_be_unset u). can_be_unset u ! j \<le> 2"
    and cnt: "unat (can_be_unsetSum u) = length (filter (\<lambda>x. x = 2) (can_be_unset u))"
    and len: "length (can_be_unset u) \<le> var_Undef"
  shows "\<exists>u1. undef_fill_independent s vs u = Inr u1
           \<and> length (can_be_unset u1) = length (can_be_unset u)
           \<and> dontLookAtClause u1 = dontLookAtClause u
           \<and> (\<forall>j < length (can_be_unset u1). can_be_unset u1 ! j \<le> 2)
           \<and> unat (can_be_unsetSum u1) = length (filter (\<lambda>x. x = 2) (can_be_unset u1))"
  using assms
proof (induction vs arbitrary: u)
  case Nil
  then show ?case by simp
next
  case (Cons v rest)
  let ?f = "\<lambda>v. map_outer_to_inter s (outer_to_with_bva_map s ! v)"
  from Cons.prems(1) have vin: "\<not> v > nVarsOutside s" and in': "\<forall>v \<in> set rest. v \<le> nVarsOutside s"
    by auto
  from Cons.prems(2) have fn: "?f v \<notin> ?f ` set rest" and dr: "distinct (map ?f rest)"
    by simp_all
  from Cons.prems(4) have v1: "?f v < nVars s \<longrightarrow> can_be_unset u ! ?f v \<le> 1"
    and o': "\<forall>w \<in> set rest. ?f w < nVars s \<longrightarrow> can_be_unset u ! ?f w \<le> 1" by simp_all
  show ?case
  proof (cases "?f v < nVars s")
    case False
    from Cons.IH[OF in' dr Cons.prems(3) o' Cons.prems(5-7)] obtain u1 where
      run: "undef_fill_independent s rest u = Inr u1"
      and r: "length (can_be_unset u1) = length (can_be_unset u)"
        "dontLookAtClause u1 = dontLookAtClause u"
        "\<forall>j < length (can_be_unset u1). can_be_unset u1 ! j \<le> 2"
        "unat (can_be_unsetSum u1) = length (filter (\<lambda>x. x = 2) (can_be_unset u1))"
      by blast
    have "undef_fill_independent s (v # rest) u = Inr u1"
      using vin False run by (simp add: Let_def)
    with r show ?thesis by simp
  next
    case True
    let ?c = "can_be_unset u ! ?f v + 1"
    let ?u1 = "u\<lparr>can_be_unset := (can_be_unset u)[?f v := ?c],
                 can_be_unsetSum := (if ?c = 2 then can_be_unsetSum u + 1
                                     else can_be_unsetSum u)\<rparr>"
    from True Cons.prems(3) have fr: "?f v < length (can_be_unset u)" by simp
    from v1 True have c2: "?c \<le> 2" and n2: "can_be_unset u ! ?f v \<noteq> 2"
      by (auto simp: byte_le_one)
    have l1: "length (can_be_unset ?u1) = length (can_be_unset u)" by simp
    have d1: "dontLookAtClause ?u1 = dontLookAtClause u" by simp
    have nv1: "nVars s \<le> length (can_be_unset ?u1)" using Cons.prems(3) by simp
    have o1: "\<forall>w \<in> set rest. ?f w < nVars s \<longrightarrow> can_be_unset ?u1 ! ?f w \<le> 1"
    proof (intro ballI impI)
      fix w assume w: "w \<in> set rest" and wn: "?f w < nVars s"
      with fn have "?f v \<noteq> ?f w" by auto
      with o' w wn show "can_be_unset ?u1 ! ?f w \<le> 1" by simp
    qed
    have s1: "\<forall>j < length (can_be_unset ?u1). can_be_unset ?u1 ! j \<le> 2"
    proof (intro allI impI)
      fix j assume "j < length (can_be_unset ?u1)"
      then have j: "j < length (can_be_unset u)" by simp
      with Cons.prems(5) have "can_be_unset u ! j \<le> 2" by simp
      with j c2 show "can_be_unset ?u1 ! j \<le> 2" by (cases "j = ?f v") simp_all
    qed
    from filter_update_count[OF fr, of "\<lambda>x. x = 2" ?c] n2
    have fc: "length (filter (\<lambda>x. x = 2) ((can_be_unset u)[?f v := ?c]))
        = length (filter (\<lambda>x. x = 2) (can_be_unset u)) + (if ?c = 2 then 1 else 0)"
      by simp
    have c1: "unat (can_be_unsetSum ?u1) = length (filter (\<lambda>x. x = 2) (can_be_unset ?u1))"
    proof (cases "?c = 2")
      case False
      with fc Cons.prems(6) show ?thesis by simp
    next
      case True
      have "length (filter (\<lambda>x. x = 2) ((can_be_unset u)[?f v := ?c])) \<le> length (can_be_unset u)"
        using length_filter_le[of "\<lambda>x. x = 2" "(can_be_unset u)[?f v := ?c]"] by simp
      with fc True Cons.prems(6,7) have "unat (can_be_unsetSum u) < var_Undef" by simp
      from counter_plus_one[OF this] fc True Cons.prems(6) show ?thesis by simp
    qed
    have len1: "length (can_be_unset ?u1) \<le> var_Undef" using Cons.prems(7) by simp
    from Cons.IH[OF in' dr nv1 o1 s1 c1 len1] obtain u2 where
      run: "undef_fill_independent s rest ?u1 = Inr u2"
      and r: "length (can_be_unset u2) = length (can_be_unset ?u1)"
        "dontLookAtClause u2 = dontLookAtClause ?u1"
        "\<forall>j < length (can_be_unset u2). can_be_unset u2 ! j \<le> 2"
        "unat (can_be_unsetSum u2) = length (filter (\<lambda>x. x = 2) (can_be_unset u2))"
      by blast
    have "undef_fill_independent s (v # rest) u = Inr u2"
      using vin True run by (simp add: Let_def)
    with r l1 d1 show ?thesis by simp
  qed
qed

text \<open>Dropping the variables marked once makes the counter exact.\<close>

lemma drop_marked_once_exact:
  assumes small: "\<forall>j < length xs. xs ! j \<le> (2::8 word)"
  shows "length (filter (\<lambda>x. x \<noteq> 0) (map (\<lambda>x. if x < 2 then 0 else x) xs))
           = length (filter (\<lambda>x. x = 2) xs)"
proof -
  have "\<forall>x \<in> set xs. x \<le> 2" using small by (auto simp: in_set_conv_nth)
  then have "filter ((\<lambda>x. x \<noteq> 0) \<circ> (\<lambda>x. if x < 2 then 0 else x)) xs = filter (\<lambda>x. x = 2) xs"
    by (intro filter_cong) auto
  then show ?thesis by (simp add: filter_map)
qed

text \<open>The third loop, over the variables that replace others.\<close>

lemma fill_replacing_exact:
  assumes "\<forall>v \<in> set vs. v < length (can_be_unset u)" "counter_exact u"
  shows "counter_exact (foldl undef_fill_replacing u vs)
         \<and> length (can_be_unset (foldl undef_fill_replacing u vs)) = length (can_be_unset u)
         \<and> dontLookAtClause (foldl undef_fill_replacing u vs) = dontLookAtClause u"
  using assms
proof (induction vs arbitrary: u)
  case Nil
  then show ?case by simp
next
  case (Cons v rest)
  from Cons.prems have vr: "v < length (can_be_unset u)" by simp
  have c1: "counter_exact (undef_fill_replacing u v)"
  proof (cases "can_be_unset u ! v \<noteq> 0")
    case True
    with counter_exact_update_zero[OF Cons.prems(2) vr] show ?thesis
      by (simp add: undef_fill_replacing_def counter_exact_def num_candidates_def)
  next
    case False
    with Cons.prems(2) show ?thesis by (simp add: undef_fill_replacing_def)
  qed
  have l1: "length (can_be_unset (undef_fill_replacing u v)) = length (can_be_unset u)"
    and d1: "dontLookAtClause (undef_fill_replacing u v) = dontLookAtClause u"
    by (simp_all add: undef_fill_replacing_def)
  from Cons.prems(1) l1 have r1: "\<forall>w \<in> set rest. w < length (can_be_unset (undef_fill_replacing u v))"
    by simp
  from Cons.IH[OF r1 c1] l1 d1 show ?case by simp
qed

lemma toLit_toInt: "toLit (toInt l) = l"
  by (cases l) (simp add: toLit_def toInt_def)

text \<open>\<open>undef_fill_potentials\<close> returns a candidate set whose counter is exact.\<close>

lemma fill_potentials_exact:
  assumes inp: "undef_inputs_ok ext tlv s"
    and u0: "trail_lim_vars u = tlv" "can_be_unsetSum u = 0"
      "can_be_unset u = replicate (nVarsOuter s) 0"
      "dontLookAtClause u = replicate (length (longIrredCls s)) False"
  shows "\<exists>u1. undef_fill_potentials ext s u = Inr u1 \<and> counter_exact u1
           \<and> length (can_be_unset u1) = nVarsOuter s
           \<and> dontLookAtClause u1 = replicate (length (longIrredCls s)) False"
proof -
  from inp have nv: "nVars s \<le> nVarsOuter s" and len: "nVarsOuter s \<le> var_Undef"
    and dist: "distinct (rev tlv)"
    and rng: "\<forall>v \<in> set (rev tlv). v < length (can_be_unset u) \<and> removed (varData s ! v) = none
                \<and> v < length (assumptionsSet s)"
    and rep: "\<forall>v \<in> set (get_vars_replacing_others ext s). v < nVarsOuter s"
    by (simp_all add: undef_inputs_ok_def u0)
  have zero: "\<forall>v \<in> set (rev tlv). can_be_unset u ! v = 0" using rng by (simp add: u0)
  have inv0: "counter_exact u" by (simp add: counter_exact_def num_candidates_def u0)
  have len0: "length (can_be_unset u) \<le> var_Undef" using len by (simp add: u0)
  have "\<exists>u3. (case undef_fill_trail s (rev (trail_lim_vars u)) u of
                 Inl e \<Rightarrow> Inl e
               | Inr u1 \<Rightarrow>
                   (case independent_vars (conf s) of
                      None \<Rightarrow> Inr u1
                    | Some vs \<Rightarrow>
                        (case undef_fill_independent s vs u1 of
                           Inl e \<Rightarrow> Inl e
                         | Inr u2 \<Rightarrow>
                             Inr (u2\<lparr>can_be_unset :=
                                    map (\<lambda>x. if x < 2 then 0 else x) (can_be_unset u2)\<rparr>)))) = Inr u3
          \<and> counter_exact u3 \<and> length (can_be_unset u3) = nVarsOuter s
          \<and> dontLookAtClause u3 = dontLookAtClause u"
  proof (cases "independent_vars (conf s)")
    case None
    from fill_trail_exact[OF None dist rng zero inv0 len0] obtain u1 where
      "undef_fill_trail s (rev tlv) u = Inr u1" "counter_exact u1"
      "length (can_be_unset u1) = length (can_be_unset u)"
      "dontLookAtClause u1 = dontLookAtClause u"
      by blast
    with None show ?thesis by (simp add: u0)
  next
    case (Some vs)
    then have ind: "independent_vars (conf s) \<noteq> None" by simp
    have small0: "\<forall>j < length (can_be_unset u). can_be_unset u ! j \<le> 1" by (simp add: u0)
    from fill_trail_marks[OF ind dist rng zero small0] obtain u1 where
      t: "undef_fill_trail s (rev tlv) u = Inr u1" and s1: "can_be_unsetSum u1 = 0"
      and l1: "length (can_be_unset u1) = nVarsOuter s"
      and d1: "dontLookAtClause u1 = dontLookAtClause u"
      and m1: "\<forall>j < length (can_be_unset u1). can_be_unset u1 ! j \<le> 1"
      by (auto simp: u0)
    from inp Some have inside: "\<forall>v \<in> set vs. v \<le> nVarsOutside s"
      and dv: "distinct (map (\<lambda>v. map_outer_to_inter s (outer_to_with_bva_map s ! v)) vs)"
      by (simp_all add: undef_inputs_ok_def)
    have nv1: "nVars s \<le> length (can_be_unset u1)" using nv l1 by simp
    have once: "\<forall>v \<in> set vs. map_outer_to_inter s (outer_to_with_bva_map s ! v) < nVars s \<longrightarrow>
                  can_be_unset u1 ! map_outer_to_inter s (outer_to_with_bva_map s ! v) \<le> 1"
      using m1 nv1 by auto
    have small1: "\<forall>j < length (can_be_unset u1). can_be_unset u1 ! j \<le> 2"
    proof (intro allI impI)
      fix j assume "j < length (can_be_unset u1)"
      with m1 have "can_be_unset u1 ! j \<le> 1" by simp
      then show "can_be_unset u1 ! j \<le> 2" by (auto simp: byte_le_one)
    qed
    have "\<forall>x \<in> set (can_be_unset u1). x \<noteq> 2"
    proof
      fix x assume "x \<in> set (can_be_unset u1)"
      then obtain j where "j < length (can_be_unset u1)" "x = can_be_unset u1 ! j"
        by (auto simp: in_set_conv_nth)
      with m1 have "x \<le> 1" by simp
      then show "x \<noteq> 2" by (auto simp: byte_le_one)
    qed
    then have "filter (\<lambda>x. x = 2) (can_be_unset u1) = []" by (simp add: filter_empty_conv)
    with s1 have cnt1: "unat (can_be_unsetSum u1) = length (filter (\<lambda>x. x = 2) (can_be_unset u1))"
      by simp
    have len1: "length (can_be_unset u1) \<le> var_Undef" using len l1 by simp
    from fill_independent_counts[OF inside dv nv1 once small1 cnt1 len1] obtain u2 where
      i: "undef_fill_independent s vs u1 = Inr u2"
      and l2: "length (can_be_unset u2) = length (can_be_unset u1)"
      and d2: "dontLookAtClause u2 = dontLookAtClause u1"
      and m2: "\<forall>j < length (can_be_unset u2). can_be_unset u2 ! j \<le> 2"
      and c2: "unat (can_be_unsetSum u2) = length (filter (\<lambda>x. x = 2) (can_be_unset u2))"
      by blast
    let ?u3 = "u2\<lparr>can_be_unset := map (\<lambda>x. if x < 2 then 0 else x) (can_be_unset u2)\<rparr>"
    have "counter_exact ?u3"
      using drop_marked_once_exact[OF m2] c2 by (simp add: counter_exact_def num_candidates_def)
    with t i Some l1 l2 d1 d2 show ?thesis by (simp add: u0)
  qed
  then obtain u3 where
    run3: "(case undef_fill_trail s (rev (trail_lim_vars u)) u of
                 Inl e \<Rightarrow> Inl e
               | Inr u1 \<Rightarrow>
                   (case independent_vars (conf s) of
                      None \<Rightarrow> Inr u1
                    | Some vs \<Rightarrow>
                        (case undef_fill_independent s vs u1 of
                           Inl e \<Rightarrow> Inl e
                         | Inr u2 \<Rightarrow>
                             Inr (u2\<lparr>can_be_unset :=
                                    map (\<lambda>x. if x < 2 then 0 else x) (can_be_unset u2)\<rparr>)))) = Inr u3"
    and c3: "counter_exact u3" and l3: "length (can_be_unset u3) = nVarsOuter s"
    and d3: "dontLookAtClause u3 = dontLookAtClause u"
    by blast
  have r3: "\<forall>v \<in> set (get_vars_replacing_others ext s). v < length (can_be_unset u3)"
    using rep l3 by simp
  from fill_replacing_exact[OF r3 c3] l3 d3
  have fin: "counter_exact (foldl undef_fill_replacing u3 (get_vars_replacing_others ext s))"
    "length (can_be_unset (foldl undef_fill_replacing u3 (get_vars_replacing_others ext s)))
       = nVarsOuter s"
    "dontLookAtClause (foldl undef_fill_replacing u3 (get_vars_replacing_others ext s))
       = replicate (length (longIrredCls s)) False"
    by (simp_all add: u0)
  have "undef_fill_potentials ext s u
      = Inr (foldl undef_fill_replacing u3 (get_vars_replacing_others ext s))"
    using run3 by (auto simp: undef_fill_potentials_def split: sum.splits option.splits)
  with fin show ?thesis by blast
qed

lemma unset_fold_length: "length (foldl (undef_unset_step u) m is) = length m"
  by (induction "is" arbitrary: m) (simp_all add: undef_unset_step_def)

lemma unset_fold_only_unsets:
  "j < length m \<Longrightarrow> foldl (undef_unset_step u) m is ! j = m ! j
     \<or> foldl (undef_unset_step u) m is ! j = l_Undef"
proof (induction "is" arbitrary: m)
  case Nil
  then show ?case by simp
next
  case (Cons i rest)
  have l: "j < length (undef_unset_step u m i)" using Cons.prems by (simp add: undef_unset_step_def)
  have "undef_unset_step u m i ! j = m ! j \<or> undef_unset_step u m i ! j = l_Undef"
    using Cons.prems by (cases "i = j") (auto simp: undef_unset_step_def)
  with Cons.IH[OF l] show ?case by auto
qed

text \<open>
  Soundness of the model minimizer, with the state after the loop made explicit: every
  clause keeps a literal that was true and is still true after the candidates are unset.
\<close>

lemma undefine_sound_aux:
  assumes inp: "undef_inputs_ok ext tlv s"
    and cs: "clauses_sat s (nVarsOuter s)"
    and wp: "watches_paired s"
  shows "\<exists>n s'. undefine ext tlv s = Inr (n, s')
           \<and> (\<forall>i < length (longIrredCls s). \<exists>l \<in> set (long_clause s i).
                 model_value s l = l_True \<and> model_value s' l = l_True)
           \<and> (\<forall>i < 2 * nVars s. \<forall>w \<in> set (watches s ! i). isBin w \<longrightarrow>
                 model_value s (toLit i) = l_True \<and> model_value s' (toLit i) = l_True
                 \<or> model_value s (w_lit2 w) = l_True \<and> model_value s' (w_lit2 w) = l_True)
           \<and> (\<forall>v < length (model s). model s' ! v = model s ! v \<or> model s' ! v = l_Undef)"
proof -
  let ?u0 = "\<lparr>trail_lim_vars = tlv, can_be_unsetSum = 0, num_fixed = 0,
              dontLookAtClause = replicate (length (longIrredCls s)) False,
              can_be_unset = replicate (nVarsOuter s) 0,
              satisfies = replicate (nVarsOuter s) 0,
              must_fix = False\<rparr>"
  from fill_potentials_exact[OF inp, of ?u0] obtain u where
    fill: "undef_fill_potentials ext s ?u0 = Inr u" and ce: "counter_exact u"
    and lu: "length (can_be_unset u) = nVarsOuter s"
    and du: "dontLookAtClause u = replicate (length (longIrredCls s)) False"
    by auto
  from inp have nv: "nVars s \<le> length (can_be_unset u)"
    and len: "length (can_be_unset u) \<le> var_Undef"
    by (simp_all add: undef_inputs_ok_def lu)
  have csu: "clauses_sat s (length (can_be_unset u))" using cs lu by simp
  have dl: "dont_look_ok s u" by (simp add: dont_look_ok_def du)
  from undefine_loop_sound[OF nv csu len ce dl] obtain u1 where
    loop: "undefine_loop s u = Inr u1" and af: "all_fixed s u1"
    by blast
  let ?s' = "undef_unset_potentials u1 s"
  have run: "undefine ext tlv s = Inr (can_be_unsetSum u1, ?s')"
    using fill loop by (simp add: undefine_def undefine_from_def)
  have keep: "model_value s l = l_True \<and> model_value ?s' l = l_True" if "fixed_true s u1 l" for l
    using that fixed_true_after_unset[OF that] by (simp add: fixed_true_def)
  have a: "\<forall>i < length (longIrredCls s). \<exists>l \<in> set (long_clause s i).
                 model_value s l = l_True \<and> model_value ?s' l = l_True"
    using af keep unfolding all_fixed_def by blast
  have b: "model_value s (toLit i) = l_True \<and> model_value ?s' (toLit i) = l_True
           \<or> model_value s (w_lit2 w) = l_True \<and> model_value ?s' (w_lit2 w) = l_True"
    if i: "i < 2 * nVars s" and w: "w \<in> set (watches s ! i)" and bw: "isBin w" for i w
  proof -
    from wp i w bw have ne: "w_lit2 w \<noteq> toLit i" and j: "toInt (w_lit2 w) < 2 * nVars s"
      and ex: "\<exists>w' \<in> set (watches s ! toInt (w_lit2 w)). isBin w' \<and> w_lit2 w' = toLit i"
      unfolding watches_paired_def by blast+
    from ne have "toInt (w_lit2 w) \<noteq> i"
      using toInt_inj[of "w_lit2 w" "toLit i"] by (simp add: toInt_toLit)
    then have "i < toInt (w_lit2 w) \<or> toInt (w_lit2 w) < i" by auto
    then have "fixed_true s u1 (toLit i) \<or> fixed_true s u1 (w_lit2 w)"
    proof
      assume "i < toInt (w_lit2 w)"
      then have "lit_less (toLit i) (w_lit2 w)" by (simp add: lit_less_def toInt_toLit)
      with af i w bw show ?thesis unfolding all_fixed_def by blast
    next
      assume less: "toInt (w_lit2 w) < i"
      from ex obtain w' where w': "w' \<in> set (watches s ! toInt (w_lit2 w))" "isBin w'"
        "w_lit2 w' = toLit i" by blast
      from less w'(3) have "lit_less (toLit (toInt (w_lit2 w))) (w_lit2 w')"
        by (simp add: lit_less_def toInt_toLit)
      with af j w'(1,2)
      have "fixed_true s u1 (toLit (toInt (w_lit2 w))) \<or> fixed_true s u1 (w_lit2 w')"
        unfolding all_fixed_def by blast
      then show ?thesis by (simp add: toLit_toInt w'(3)) blast
    qed
    with keep show ?thesis by blast
  qed
  have c: "\<forall>v < length (model s). model ?s' ! v = model s ! v \<or> model ?s' ! v = l_Undef"
    using unset_fold_only_unsets by (simp add: undef_unset_potentials_def)
  from run a b c show ?thesis by blast
qed

text \<open>
  C2.  Let the trail variables be distinct, in range, not removed and covered by
  \<open>assumptionsSet\<close>, let the independent set (if there is one) map to distinct inner
  variables, and let the model satisfy every long irredundant clause and every binary
  clause of the watch lists, each binary clause being watched from both of its literals.
  Then \<open>undefine\<close> returns, and in the model it leaves every long irredundant clause and
  every binary clause of the watch lists has a literal that was true before and is still
  true, that is, a true literal whose variable was not unset; the other variables are
  unchanged or unset.
\<close>

theorem undefine_keeps_clauses_satisfied:
  assumes "undef_inputs_ok ext tlv s"
    and "clauses_sat s (nVarsOuter s)"
    and "watches_paired s"
  shows "\<exists>n s'. undefine ext tlv s = Inr (n, s')
           \<and> (\<forall>i < length (longIrredCls s).
                 \<exists>l \<in> set (cl_lits (cl_alloc s ! (longIrredCls s ! i))).
                   model_value s l = l_True \<and> model_value s' l = l_True)
           \<and> (\<forall>i < 2 * nVars s. \<forall>w \<in> set (watches s ! i). isBin w \<longrightarrow>
                 model_value s (toLit i) = l_True \<and> model_value s' (toLit i) = l_True
                 \<or> model_value s (w_lit2 w) = l_True \<and> model_value s' (w_lit2 w) = l_True)
           \<and> (\<forall>v < length (model s). model s' ! v = model s ! v \<or> model s' ! v = l_Undef)"
  using undefine_sound_aux[OF assms] by (simp add: long_clause_def)

lemma less_eight: "i < 8 \<longleftrightarrow> i \<in> {0, 1, 2, 3, 4, 5, 6, 7::nat}"
  by auto

lemma solver_minimize_simps:
  "nVars solver_minimize = 4" "nVarsOuter solver_minimize = 4"
  "longIrredCls solver_minimize = [0]"
  "cl_alloc solver_minimize = [\<lparr>cl_lits = [Lit 0 False, Lit 2 False, Lit 3 False], cl_red = False,
                      cl_stats = default_ClauseStats ext0, cl_strengthened = False\<rparr>]"
  "watches solver_minimize = [[Bin (Lit 2 True) False, Long 0 (Lit 3 False)], [], [], [],
                    [Long 0 (Lit 3 False)], [Bin (Lit 0 False) False], [], []]"
  "model solver_minimize = [l_True, l_True, l_True, l_False]"
  "independent_vars (conf solver_minimize) = None"
  "varData solver_minimize = replicate 4 \<lparr>removed = none, is_bva = False\<rparr>"
  "assumptionsSet solver_minimize = replicate 4 False"
  by (simp_all add: solver_minimize_def solver_vars_def solver0_def conf0_def)

theorem undefine_keeps_clauses_satisfied_witness:
  "\<exists>n s'. undefine ext0 [0, 2, 3] solver_minimize = Inr (n, s')
      \<and> (\<exists>l \<in> set [Lit 0 False, Lit 2 False, Lit 3 False].
            model_value solver_minimize l = l_True \<and> model_value s' l = l_True)
      \<and> (model_value s' (Lit 0 False) = l_True \<or> model_value s' (Lit 2 True) = l_True)"
proof -
  have h1: "undef_inputs_ok ext0 [0, 2, 3] solver_minimize"
    by (simp add: undef_inputs_ok_def solver_minimize_simps var_Undef_def ext0_def)
  have h2: "clauses_sat solver_minimize (nVarsOuter solver_minimize)"
    by (simp add: clauses_sat_def solver_minimize_simps long_clause_def model_value_def
          toLit_def less_eight)
  have h3: "watches_paired solver_minimize"
    by (simp add: watches_paired_def solver_minimize_simps toLit_def toInt_def less_eight)
  from undefine_keeps_clauses_satisfied[OF h1 h2 h3] obtain n s' where
    run: "undefine ext0 [0, 2, 3] solver_minimize = Inr (n, s')"
    and a: "\<forall>i < length (longIrredCls solver_minimize).
                 \<exists>l \<in> set (cl_lits (cl_alloc solver_minimize ! (longIrredCls solver_minimize ! i))).
                   model_value solver_minimize l = l_True \<and> model_value s' l = l_True"
    and b: "\<forall>i < 2 * nVars solver_minimize. \<forall>w \<in> set (watches solver_minimize ! i). isBin w \<longrightarrow>
                 model_value solver_minimize (toLit i) = l_True \<and> model_value s' (toLit i) = l_True
                 \<or> model_value solver_minimize (w_lit2 w) = l_True
                   \<and> model_value s' (w_lit2 w) = l_True"
    by blast
  from a have a': "\<exists>l \<in> set [Lit 0 False, Lit 2 False, Lit 3 False].
            model_value solver_minimize l = l_True \<and> model_value s' l = l_True"
    by (simp add: solver_minimize_simps)
  from b[rule_format, of 0 "Bin (Lit 2 True) False"]
  have b': "model_value s' (Lit 0 False) = l_True \<or> model_value s' (Lit 2 True) = l_True"
    by (auto simp: solver_minimize_simps toLit_def)
  from run a' b' show ?thesis by blast
qed

end
